theory Spec2Isabelle
  imports Main "HOL-Library.Word"
begin

section \<open>Strings\<close>

text \<open>
  A JavaScript string is a sequence of UTF-16 code units; \<open>length\<close>, \<open>slice\<close>,
  \<open>lastIndexOf\<close> and \<open>trimStart\<close> all count and compare code units.
\<close>

type_synonym code_unit = "16 word"
type_synonym jsstring = "code_unit list"

text \<open>An ASCII literal of the source, as code units.\<close>

definition str :: "string \<Rightarrow> jsstring" where
  "str s = map (\<lambda>c. of_nat (of_char c)) s"

definition NL :: code_unit where
  "NL = 0x0A"

definition SP :: code_unit where
  "SP = 0x20"

text \<open>
  The characters removed by \<open>trimStart\<close> and \<open>trim\<close> and matched by the regular
  expression class \<open>\s\<close>: ECMAScript WhiteSpace and LineTerminator.
\<close>

definition isWhiteSpace :: "code_unit \<Rightarrow> bool" where
  "isWhiteSpace c \<longleftrightarrow>
     c = 0x09 \<or> c = 0x0A \<or> c = 0x0B \<or> c = 0x0C \<or> c = 0x0D \<or> c = 0x20 \<or> c = 0xA0 \<or>
     c = 0x1680 \<or> (0x2000 \<le> c \<and> c \<le> 0x200A) \<or> c = 0x2028 \<or> c = 0x2029 \<or>
     c = 0x202F \<or> c = 0x205F \<or> c = 0x3000 \<or> c = 0xFEFF"

definition trimStart :: "jsstring \<Rightarrow> jsstring" where
  "trimStart s = dropWhile isWhiteSpace s"

definition trimEnd :: "jsstring \<Rightarrow> jsstring" where
  "trimEnd s = rev (dropWhile isWhiteSpace (rev s))"

definition trim :: "jsstring \<Rightarrow> jsstring" where
  "trim s = trimEnd (trimStart s)"

text \<open>\<open>s.slice(b, e)\<close>: negative indices count from the end, everything is clamped.\<close>

definition slice_js :: "'a list \<Rightarrow> int \<Rightarrow> int \<Rightarrow> 'a list" where
  "slice_js s b e =
     (let n = int (length s);
          from = (if b < 0 then max (n + b) 0 else min b n);
          to = (if e < 0 then max (n + e) 0 else min e n)
      in take (nat (to - from)) (drop (nat from) s))"

text \<open>\<open>s.slice(b)\<close>: the end defaults to the length.\<close>

definition sliceFrom :: "'a list \<Rightarrow> int \<Rightarrow> 'a list" where
  "sliceFrom s b = slice_js s b (int (length s))"

text \<open>\<open>s.lastIndexOf(c)\<close> for a one-character pattern: the last index, or \<open>-1\<close>.\<close>

fun lastIndexOf :: "'a list \<Rightarrow> 'a \<Rightarrow> int" where
  "lastIndexOf [] c = -1"
| "lastIndexOf (x # xs) c =
     (let r = lastIndexOf xs c
      in if 0 \<le> r then r + 1 else if x = c then 0 else -1)"

text \<open>\<open>chunks.join(sep)\<close>.\<close>

fun join :: "'a list \<Rightarrow> 'a list list \<Rightarrow> 'a list" where
  "join sep [] = []"
| "join sep [x] = x"
| "join sep (x # y # ys) = x @ sep @ join sep (y # ys)"

section \<open>Reply chunking: \<open>DiscordBot.splitMessage\<close>\<close>

definition DISCORD_MSG_LIMIT :: nat where
  "DISCORD_MSG_LIMIT = 2000"

text \<open>
  One iteration of the \<open>while\<close> loop of \<open>splitMessage\<close>: the chunk it pushes and the
  new value of \<open>remaining\<close>.
\<close>

definition splitStep :: "jsstring \<Rightarrow> jsstring \<times> jsstring" where
  "splitStep remaining =
     (let chunk = slice_js remaining 0 (int DISCORD_MSG_LIMIT);
          split = max (lastIndexOf chunk NL) (lastIndexOf chunk SP);
          chunk = (if split > int DISCORD_MSG_LIMIT - 500 then slice_js chunk 0 split else chunk)
      in (chunk, trimStart (sliceFrom remaining (int (length chunk)))))"

text \<open>
  The loop itself. Nothing in its shape bounds the number of iterations, so it is a
  partial function: \<open>None\<close> stands for a loop that never exits.
\<close>

partial_function (option) splitLoop :: "jsstring list \<Rightarrow> jsstring \<Rightarrow> jsstring list option" where
  "splitLoop chunks remaining =
     (if length remaining > 0
      then (case splitStep remaining of (chunk, rest) \<Rightarrow> splitLoop (chunks @ [chunk]) rest)
      else Some chunks)"

declare splitLoop.simps [code]

definition splitMessage :: "jsstring \<Rightarrow> jsstring list option" where
  "splitMessage content =
     (if length content \<le> DISCORD_MSG_LIMIT then Some [content] else splitLoop [] content)"

section \<open>Errors and numbers in text\<close>

text \<open>\<open>new Error(message)\<close>: every error the sources throw is an \<open>Error\<close> with a message.\<close>

datatype error = Error jsstring

text \<open>The decimal text of an integer, as a template literal renders it.\<close>

fun showNat :: "nat \<Rightarrow> jsstring" where
  "showNat n = (if n < 10 then [of_nat (48 + n)] else showNat (n div 10) @ [of_nat (48 + n mod 10)])"

declare showNat.simps [simp del]

definition showInt :: "int \<Rightarrow> jsstring" where
  "showInt i = (if i < 0 then 0x2D # showNat (nat (- i)) else showNat (nat i))"

definition DQ :: code_unit where
  "DQ = 0x22"

definition startsWith :: "jsstring \<Rightarrow> jsstring \<Rightarrow> bool" where
  "startsWith s p \<longleftrightarrow> take (length p) s = p"

section \<open>The completion service: \<open>CopilotManager\<close>\<close>

record model_info =
  model_id :: jsstring
  label :: jsstring
  description :: jsstring

definition MODELS :: "model_info list" where
  "MODELS =
     [\<lparr>model_id = str ''gpt-5-mini'', label = str ''ChatGPT 5 mini'',
        description = str ''Latest mini model (gpt-5-mini)''\<rparr>,
      \<lparr>model_id = str ''gpt-4.1'', label = str ''ChatGPT 4.1'',
        description = str ''Fast and capable (gpt-4.1)''\<rparr>,
      \<lparr>model_id = str ''gpt-4o'', label = str ''ChatGPT 4o'',
        description = str ''Balanced general model (gpt-4o)''\<rparr>]"

definition DEFAULT_MODEL :: jsstring where
  "DEFAULT_MODEL = str ''gpt-4.1''"

definition unknownModel :: "jsstring \<Rightarrow> error" where
  "unknownModel modelId = Error (str ''Unknown model '' @ [DQ] @ modelId @ [DQ])"

subsection \<open>The stateless transport (direct HTTP calls)\<close>

record CopilotManager =
  token :: "jsstring option"
  model :: jsstring

text \<open>
  \<open>setModel\<close> returns how the call ends (\<open>Inl\<close>: the error thrown) and the manager
  afterwards.
\<close>

definition setModel :: "jsstring \<Rightarrow> CopilotManager \<Rightarrow> (error + unit) \<times> CopilotManager" where
  "setModel modelId this =
     (case find (\<lambda>m. model_id m = modelId) MODELS of
        None \<Rightarrow> (Inl (unknownModel modelId), this)
      | Some valid \<Rightarrow> (Inr (), this\<lparr>model := modelId\<rparr>))"

text \<open>
  The body \<open>send\<close> posts: \<open>{ model: this.model, messages: [{ role: 'user', content }] }\<close>,
  the content being the prompt alone, or the prompt and one image part for each attachment.
\<close>

record http_attachment =
  contentType :: jsstring
  base64 :: jsstring

datatype content_part = TextPart jsstring | ImagePart jsstring

datatype chat_content = Plain jsstring | Parts "content_part list"

record chat_request =
  req_model :: jsstring
  req_content :: chat_content

definition send_request :: "CopilotManager \<Rightarrow> jsstring \<Rightarrow> http_attachment list \<Rightarrow> chat_request" where
  "send_request this prompt atts =
     \<lparr>req_model = model this,
      req_content =
        (if length atts > 0
         then Parts (TextPart prompt #
                map (\<lambda>a. ImagePart (str ''data:'' @ contentType a @ str '';base64,'' @ base64 a)) atts)
         else Plain prompt)\<rparr>"

subsection \<open>The session transport (Copilot SDK)\<close>

text \<open>
  A session is bound to the model it was created for. \<open>client.createSession\<close> belongs to
  the SDK: \<open>sdk m\<close> is the error it fails with for the model \<open>m\<close>, or \<open>None\<close> when it
  returns a session.
\<close>

record session =
  session_model :: jsstring
  destroyed :: bool

record SessionManager =
  s_token :: "jsstring option"
  s_client :: bool
  s_session :: "session option"
  s_model :: jsstring

definition createSession :: "(jsstring \<Rightarrow> error option) \<Rightarrow> SessionManager \<Rightarrow> (error + unit) \<times> SessionManager" where
  "createSession sdk this =
     (let this = this\<lparr>s_session := map_option (\<lambda>s. s\<lparr>destroyed := True\<rparr>) (s_session this)\<rparr>
      in if \<not> s_client this then (Inl (Error (str ''TypeError'')), this)
         else (case sdk (s_model this) of
                 Some e \<Rightarrow> (Inl e, this)
               | None \<Rightarrow>
                   (Inr (), this\<lparr>s_session := Some \<lparr>session_model = s_model this, destroyed = False\<rparr>\<rparr>)))"

definition setModel_session ::
  "(jsstring \<Rightarrow> error option) \<Rightarrow> jsstring \<Rightarrow> SessionManager \<Rightarrow> (error + unit) \<times> SessionManager" where
  "setModel_session sdk modelId this =
     (case find (\<lambda>m. model_id m = modelId) MODELS of
        None \<Rightarrow> (Inl (unknownModel modelId), this)
      | Some valid \<Rightarrow> createSession sdk (this\<lparr>s_model := modelId\<rparr>))"

text \<open>The session \<open>send\<close> calls \<open>sendAndWait\<close> on, when there is a live one.\<close>

definition send_session :: "SessionManager \<Rightarrow> session option" where
  "send_session this =
     (case s_session this of
        None \<Rightarrow> None
      | Some s \<Rightarrow> if destroyed s then None else Some s)"

section \<open>The Discord bot\<close>

record attachment =
  att_name :: jsstring
  att_url :: jsstring
  att_contentType :: "jsstring option"
  att_size :: nat

record message =
  msg_id :: jsstring
  guildId :: jsstring
  channelId :: jsstring
  author_username :: jsstring
  author_bot :: bool
  content :: jsstring
  attachments :: "attachment list"
  createdTimestamp :: int

record config =
  DISCORD_GUILD_ID :: jsstring
  DISCORD_CHANNEL_ID :: "jsstring option"
  BLACKLISTED_CHANNELS :: "jsstring list"
  REPLY_TO_BOT :: bool
  CONTEXT_MESSAGE_COUNT :: int
  IMAGE_SUPPORT :: bool
  MAX_IMAGE_SIZE_MB :: int

record fetch_opts =
  limit :: int
  before :: "jsstring option"

record dl_attachment =
  dl_type :: jsstring
  dl_path :: jsstring
  dl_displayName :: jsstring

text \<open>
  What the bot does to the outside, in the order it does it. A reply carries the id of the
  message replied to and, for the proofs, which statement of the source sent it.
\<close>

datatype reply_kind = ChunkReply | TooLargeNotice | EmptyNotice | ErrorNotice

datatype event =
    SendTyping jsstring
  | Fetch jsstring fetch_opts
  | Reply jsstring reply_kind jsstring
  | Download jsstring jsstring
  | Send jsstring "dl_attachment list"

text \<open>
  The outside world answers each request: the history fetch of a channel, a reply to a
  message, the download of a URL to a path, a completion call, the clock when the download
  of a URL starts, and the temporary directory. An answer is a function of the request.

  The outside world also decides when its answers arrive, and with that the order in
  which two calls that are in progress at the same time go on. For the message with a
  given id, \<open>schedule\<close> is the order in which \<open>buildPrompt\<close> and \<open>downloadAttachments\<close> go
  on under \<open>Promise.all\<close>, and \<open>late\<close> the order in which the drain loop and a
  \<open>downloadAttachments\<close> that \<open>processMessage\<close> has left behind go on. Both are read by
  \<open>interleave\<close> below.
\<close>

record env =
  fetch_result :: "jsstring \<Rightarrow> fetch_opts \<Rightarrow> error + message list"
  reply_result :: "jsstring \<Rightarrow> jsstring \<Rightarrow> error option"
  download_result :: "jsstring \<Rightarrow> jsstring \<Rightarrow> error option"
  send_result :: "jsstring \<Rightarrow> dl_attachment list \<Rightarrow> error + jsstring option"
  clock :: "jsstring \<Rightarrow> int"
  tmpdir :: jsstring
  schedule :: "jsstring \<Rightarrow> bool list"
  late :: "jsstring \<Rightarrow> bool list"

subsection \<open>\<open>buildPrompt\<close>\<close>

text \<open>
  The loop of the unlimited mode (\<open>count === 0\<close>). It returns the history, or the error of
  the fetch that failed, and the fetches made. \<open>pageOpts\<close> is the \<open>opts\<close> of an iteration:
  \<open>before\<close> is set when \<open>lastId\<close> is truthy.
\<close>

definition pageOpts :: "jsstring option \<Rightarrow> fetch_opts" where
  "pageOpts lastId =
     \<lparr>limit = 100, before = (case lastId of None \<Rightarrow> None | Some i \<Rightarrow> if i = [] then None else Some i)\<rparr>"

function fetchAll ::
  "env \<Rightarrow> jsstring \<Rightarrow> message list \<Rightarrow> jsstring option \<Rightarrow> (error + message list) \<times> event list" where
  "fetchAll env ch history lastId =
     (if length history < 1000
      then (let opts = pageOpts lastId
            in case fetch_result env ch opts of
                 Inl e \<Rightarrow> (Inl e, [Fetch ch opts])
               | Inr batch \<Rightarrow>
                   (let history' = history @ batch
                    in if length batch < 100 then (Inr history', [Fetch ch opts])
                       else (case fetchAll env ch history' (Some (msg_id (last batch))) of
                               (r, evs) \<Rightarrow> (r, Fetch ch opts # evs))))
      else (Inr history, []))"
  by pat_completeness auto
termination
  by (relation "measure (\<lambda>(env, ch, history, lastId). 1000 - length history)") auto

declare fetchAll.simps [simp del]

text \<open>The answers to the fetches of a list of events, in order.\<close>

fun fetched :: "env \<Rightarrow> event \<Rightarrow> (error + message list) list" where
  "fetched env (Fetch ch opts) = [fetch_result env ch opts]"
| "fetched env _ = []"

definition pageResults :: "env \<Rightarrow> event list \<Rightarrow> (error + message list) list" where
  "pageResults env evs = concat (map (fetched env) evs)"

definition render :: "message \<Rightarrow> jsstring" where
  "render m = author_username m @ str '': '' @ content m"

definition buildPrompt :: "env \<Rightarrow> config \<Rightarrow> message \<Rightarrow> (error + jsstring) \<times> event list" where
  "buildPrompt env cfg message =
     (let count = CONTEXT_MESSAGE_COUNT cfg
      in if count = 1 then (Inr (content message), [])
         else (case (if count = 0 then fetchAll env (channelId message) [] None
                     else (let opts = \<lparr>limit = count, before = None\<rparr>
                           in (fetch_result env (channelId message) opts, [Fetch (channelId message) opts])))
               of (Inl e, evs) \<Rightarrow> (Inl e, evs)
                | (Inr history, evs) \<Rightarrow>
                    (let context = join [NL] (map render (sort_key createdTimestamp
                                     (filter (\<lambda>m. msg_id m \<noteq> msg_id message) history)))
                     in (Inr (if context \<noteq> [] then context @ [NL] @ render message else content message),
                         evs))))"

subsection \<open>\<open>downloadAttachments\<close>\<close>

definition tooLargeText :: "config \<Rightarrow> attachment \<Rightarrow> jsstring" where
  "tooLargeText cfg a =
     [DQ] @ att_name a @ [DQ] @ str '' is too large (max '' @ showInt (MAX_IMAGE_SIZE_MB cfg) @ str '' MB).''"

text \<open>
  \<open>path.join(os.tmpdir(), `cobot_${Date.now()}_${attachment.name}`)\<close>, for a name without
  path separators.
\<close>

definition tmpPath :: "env \<Rightarrow> attachment \<Rightarrow> jsstring" where
  "tmpPath env a = tmpdir env @ str ''/cobot_'' @ showInt (clock env (att_url a)) @ str ''_'' @ att_name a"

definition isImage :: "attachment \<Rightarrow> bool" where
  "isImage a = (case att_contentType a of None \<Rightarrow> False | Some ct \<Rightarrow> startsWith ct (str ''image/''))"

definition maxBytes :: "config \<Rightarrow> int" where
  "maxBytes cfg = MAX_IMAGE_SIZE_MB cfg * 1024 * 1024"

text \<open>The \<open>for\<close> loop over the attachments: the downloaded files and what was done.\<close>

fun downloadLoop :: "env \<Rightarrow> config \<Rightarrow> message \<Rightarrow> attachment list \<Rightarrow> dl_attachment list \<times> event list" where
  "downloadLoop env cfg message [] = ([], [])"
| "downloadLoop env cfg message (a # rest) =
     (if \<not> isImage a then downloadLoop env cfg message rest
      else if int (att_size a) > maxBytes cfg
      then (case downloadLoop env cfg message rest of
              (results, evs) \<Rightarrow> (results, Reply (msg_id message) TooLargeNotice (tooLargeText cfg a) # evs))
      else (case downloadLoop env cfg message rest of
              (results, evs) \<Rightarrow>
                (case download_result env (att_url a) (tmpPath env a) of
                   None \<Rightarrow>
                     (\<lparr>dl_type = str ''file'', dl_path = tmpPath env a, dl_displayName = att_name a\<rparr> # results,
                      Download (att_url a) (tmpPath env a) # evs)
                 | Some e \<Rightarrow> (results, Download (att_url a) (tmpPath env a) # evs))))"

definition downloadAttachments :: "env \<Rightarrow> config \<Rightarrow> message \<Rightarrow> dl_attachment list \<times> event list" where
  "downloadAttachments env cfg message =
     (if \<not> IMAGE_SUPPORT cfg \<or> attachments message = [] then ([], [])
      else downloadLoop env cfg message (attachments message))"

text \<open>
  The temporary files: \<open>downloadFile\<close> opens its destination for writing before it
  requests the URL, so every download that is started leaves a file (the temporary
  directory is taken to be writable). No statement of the bot removes a file.
\<close>

fun written :: "event \<Rightarrow> jsstring list" where
  "written (Download url dest) = [dest]"
| "written _ = []"

definition files_after :: "event list \<Rightarrow> jsstring set \<Rightarrow> jsstring set" where
  "files_after evs files = files \<union> set (concat (map written evs))"

subsection \<open>\<open>sendReply\<close> and \<open>processMessage\<close>\<close>

text \<open>The loop of \<open>sendReply\<close>: it stops at the first reply that fails.\<close>

fun sendReply :: "env \<Rightarrow> message \<Rightarrow> jsstring list \<Rightarrow> error option \<times> event list" where
  "sendReply env message [] = (None, [])"
| "sendReply env message (chunk # chunks) =
     (case reply_result env (msg_id message) chunk of
        Some e \<Rightarrow> (Some e, [Reply (msg_id message) ChunkReply chunk])
      | None \<Rightarrow>
          (case sendReply env message chunks of
             (r, evs) \<Rightarrow> (r, Reply (msg_id message) ChunkReply chunk # evs)))"

definition GENERIC_ERROR :: jsstring where
  "GENERIC_ERROR = str ''Something went wrong communicating with Copilot. Please try again.''"

definition EMPTY_RESPONSE :: jsstring where
  "EMPTY_RESPONSE = str ''Copilot returned an empty response.''"

text \<open>
  Two calls in progress at the same time: each goes on when the outside world has
  answered its last request. \<open>interleave sched xs ys\<close> puts their steps in one order:
  \<open>xs\<close> are the steps the first call has left, \<open>ys\<close> those of the second, and \<open>sched\<close>
  says which of the two goes on next, \<open>True\<close> for the first. When it is the turn of the
  first call and it has no step left, it has come to its end. The result is what was
  done until then, and the steps the second call still has to make. When the schedule
  has run out, the first call goes on to its end.
\<close>

fun interleave :: "bool list \<Rightarrow> 'a list \<Rightarrow> 'a list \<Rightarrow> 'a list \<times> 'a list" where
  "interleave (True # sched) (x # xs) ys = (case interleave sched xs ys of (zs, left) \<Rightarrow> (x # zs, left))"
| "interleave (False # sched) xs (y # ys) = (case interleave sched xs ys of (zs, left) \<Rightarrow> (y # zs, left))"
| "interleave (False # sched) xs [] = (xs, [])"
| "interleave (True # sched) [] ys = ([], ys)"
| "interleave [] xs ys = (xs, ys)"

text \<open>
  How the processing of a message ends: replied, the empty-response notice, the \<open>catch\<close>
  block with the error caught, or a \<open>splitMessage\<close> that never returns. With it, what
  \<open>processMessage\<close> did until it returned, and the steps that \<open>downloadAttachments\<close>
  still has to make at that moment.
\<close>

datatype outcome = Replied | EmptyResponse | Failed error | Diverged

record processing =
  ended :: outcome
  did :: "event list"
  to_come :: "event list"

text \<open>
  What \<open>processMessage\<close> does before its first \<open>await\<close>, in one turn of the event loop:
  it sends the typing signal and calls \<open>buildPrompt\<close> and \<open>downloadAttachments\<close>, each of
  which runs to its own first \<open>await\<close>, where its first request is out.
\<close>

definition begun :: "env \<Rightarrow> config \<Rightarrow> message \<Rightarrow> event list" where
  "begun env cfg message =
     SendTyping (channelId message) # take 1 (snd (buildPrompt env cfg message)) @
       take 1 (snd (downloadAttachments env cfg message))"

text \<open>
  \<open>processMessage\<close>. After the first turn the two calls under \<open>Promise.all\<close> go on in the
  order of the schedule. \<open>downloadAttachments\<close> never rejects: it catches the errors of
  its downloads and of its notices.
  \<^item> When \<open>buildPrompt\<close> returns the prompt, \<open>Promise.all\<close> waits for
    \<open>downloadAttachments\<close> to finish, and \<open>processMessage\<close> goes on with the completion
    call.
  \<^item> When \<open>buildPrompt\<close> rejects, \<open>Promise.all\<close> rejects at once: \<open>processMessage\<close> goes
    to its \<open>catch\<close> block, sends the error reply and returns when that reply has been
    answered. \<open>downloadAttachments\<close>, awaited by nobody, goes on all the while, and after
    the return with the steps it still has to make.

  The typing timer is left out.
\<close>

definition processMessage :: "env \<Rightarrow> config \<Rightarrow> message \<Rightarrow> processing" where
  "processMessage env cfg message =
     (case (buildPrompt env cfg message, downloadAttachments env cfg message) of
        ((p, pevs), (atts, devs)) \<Rightarrow>
          (let errorReply = Reply (msg_id message) ErrorNotice GENERIC_ERROR;
               failed = (\<lambda>e evs. \<lparr>ended = Failed e, did = evs @ [errorReply], to_come = []\<rparr>)
           in case p of
                Inl e \<Rightarrow>
                  (case interleave (schedule env (msg_id message)) (drop 1 pevs @ [errorReply]) (drop 1 devs) of
                     (evs, left) \<Rightarrow>
                       \<lparr>ended = Failed e, did = begun env cfg message @ evs, to_come = left\<rparr>)
              | Inr prompt \<Rightarrow>
                  (case interleave (schedule env (msg_id message)) (drop 1 pevs) (drop 1 devs) of
                     (evs, left) \<Rightarrow>
                       (let evs = begun env cfg message @ evs @ left @ [Send prompt atts]
                        in case send_result env prompt atts of
                             Inl e \<Rightarrow> failed e evs
                           | Inr response \<Rightarrow>
                               (let text = (case response of None \<Rightarrow> [] | Some c \<Rightarrow> trim c)
                                in if text = []
                                   then \<lparr>ended = EmptyResponse,
                                         did = evs @ [Reply (msg_id message) EmptyNotice EMPTY_RESPONSE],
                                         to_come = []\<rparr>
                                   else (case splitMessage text of
                                           None \<Rightarrow> \<lparr>ended = Diverged, did = evs, to_come = []\<rparr>
                                         | Some chunks \<Rightarrow>
                                             (case sendReply env message chunks of
                                                (None, revs) \<Rightarrow>
                                                  \<lparr>ended = Replied, did = evs @ revs, to_come = []\<rparr>
                                              | (Some e, revs) \<Rightarrow> failed e (evs @ revs))))))))"

subsection \<open>The queue of a channel\<close>

text \<open>
  The turns of the event loop. What a call of \<open>processMessage\<close> does before its first
  \<open>await\<close> is done in one turn, and every later event in a turn of its own. When
  \<open>processMessage\<close> returns, the loop of \<open>processQueue\<close> calls it for the next message
  in the same turn.

  \<open>weave sched turns left\<close> are the turns of the channel once a call of \<open>processMessage\<close>
  has returned: \<open>turns\<close> are the later turns of the loop, and \<open>left\<close> the steps that the
  call's \<open>downloadAttachments\<close> still has to make. These steps come after the first of
  the turns, the one in which the call returned, and among the others in the order of
  the schedule.
\<close>

definition weave :: "bool list \<Rightarrow> 'a list list \<Rightarrow> 'a list \<Rightarrow> 'a list list" where
  "weave sched turns left =
     (case turns of
        [] \<Rightarrow> map (\<lambda>x. [x]) left
      | first # later \<Rightarrow>
          first # (case interleave sched later (map (\<lambda>x. [x]) left) of (zs, rest) \<Rightarrow> zs @ rest))"

text \<open>
  The \<open>while\<close> loop of \<open>processQueue\<close> on the messages queued for a channel: it takes the
  head, awaits \<open>processMessage\<close> and goes on with the next message once that call has
  returned; a call that never returns leaves the loop waiting. The result lists the
  events turn by turn, each event with the id of the message it belongs to; the events
  of the channel in their order are the \<open>concat\<close> of the result.
\<close>

fun processQueue :: "env \<Rightarrow> config \<Rightarrow> message list \<Rightarrow> (jsstring \<times> event) list list" where
  "processQueue env cfg [] = []"
| "processQueue env cfg (message # queue) =
     (let r = processMessage env cfg message;
          tag = Pair (msg_id message);
          own = map tag (begun env cfg message) #
                map (\<lambda>e. [tag e]) (drop (length (begun env cfg message)) (did r))
      in if ended r = Diverged then own
         else own @ weave (late env (msg_id message)) (processQueue env cfg queue) (map tag (to_come r)))"

subsection \<open>The dispatcher: \<open>onMessage\<close> and the guard of \<open>processQueue\<close>\<close>

text \<open>
  The state \<open>onMessage\<close> and \<open>processQueue\<close> share: the queue of each channel and the
  channels that have a drain task. A drain task waits at
  \<open>await this.processMessage(message)\<close>; \<open>awaited\<close> is the message it waits for. The
  calls of \<open>processMessage\<close> and their returns are written to \<open>calls\<close>.
\<close>

datatype call = Called message | Returned message

record dispatcher =
  channelQueues :: "jsstring \<rightharpoonup> message list"
  processingChannels :: "jsstring set"
  awaited :: "jsstring \<rightharpoonup> message"
  calls :: "(jsstring \<times> call) list"

definition newDispatcher :: dispatcher where
  "newDispatcher = \<lparr>channelQueues = Map.empty, processingChannels = {}, awaited = Map.empty, calls = []\<rparr>"

text \<open>The filters of \<open>onMessage\<close>.\<close>

definition accepts :: "config \<Rightarrow> message \<Rightarrow> bool" where
  "accepts cfg message \<longleftrightarrow>
     guildId message = DISCORD_GUILD_ID cfg \<and>
     \<not> (case DISCORD_CHANNEL_ID cfg of None \<Rightarrow> False | Some c \<Rightarrow> c \<noteq> [] \<and> channelId message \<noteq> c) \<and>
     channelId message \<notin> set (BLACKLISTED_CHANNELS cfg) \<and>
     \<not> (\<not> REPLY_TO_BOT cfg \<and> author_bot message) \<and>
     \<not> (content message = [] \<and> attachments message = [])"

text \<open>
  The \<open>while\<close> loop of \<open>processQueue\<close> from its test to the next \<open>await\<close>: it takes the
  head of the queue and calls \<open>processMessage\<close>, or it leaves the loop and removes the
  channel from \<open>processingChannels\<close>.
\<close>

definition drainNext :: "jsstring \<Rightarrow> dispatcher \<Rightarrow> dispatcher" where
  "drainNext ch d =
     (case channelQueues d ch of
        Some (message # queue) \<Rightarrow>
          d\<lparr>channelQueues := (channelQueues d)(ch \<mapsto> queue),
            awaited := (awaited d)(ch \<mapsto> message),
            calls := calls d @ [(ch, Called message)]\<rparr>
      | _ \<Rightarrow>
          d\<lparr>processingChannels := processingChannels d - {ch},
            awaited := (awaited d)(ch := None)\<rparr>)"

text \<open>The call \<open>processQueue(channelId)\<close>, up to its first \<open>await\<close>: \<open>ch\<close> is the channel id.\<close>

definition processQueue_call :: "jsstring \<Rightarrow> dispatcher \<Rightarrow> dispatcher" where
  "processQueue_call ch d =
     (if ch \<in> processingChannels d then d
      else drainNext ch (d\<lparr>processingChannels := insert ch (processingChannels d)\<rparr>))"

text \<open>The queue of the channel is created when it is missing, and the message is pushed.\<close>

definition pushMessage :: "message \<Rightarrow> dispatcher \<Rightarrow> dispatcher" where
  "pushMessage message d =
     d\<lparr>channelQueues := (channelQueues d)(channelId message \<mapsto>
         (case channelQueues d (channelId message) of None \<Rightarrow> [] | Some queue \<Rightarrow> queue) @ [message])\<rparr>"

definition onMessage :: "config \<Rightarrow> message \<Rightarrow> dispatcher \<Rightarrow> dispatcher" where
  "onMessage cfg message d =
     (if \<not> accepts cfg message then d
      else processQueue_call (channelId message) (pushMessage message d))"

text \<open>The awaited call of a channel returns, and its drain task goes on.\<close>

definition resume :: "jsstring \<Rightarrow> dispatcher \<Rightarrow> dispatcher" where
  "resume ch d =
     (case awaited d ch of
        None \<Rightarrow> d
      | Some message \<Rightarrow> drainNext ch (d\<lparr>calls := calls d @ [(ch, Returned message)]\<rparr>))"

text \<open>What happens to the bot, turn by turn: a message arrives, or an awaited call returns.\<close>

datatype turn = Arrives message | Returns jsstring

fun turn_step :: "config \<Rightarrow> dispatcher \<Rightarrow> turn \<Rightarrow> dispatcher" where
  "turn_step cfg d (Arrives message) = onMessage cfg message d"
| "turn_step cfg d (Returns ch) = resume ch d"

definition run :: "config \<Rightarrow> turn list \<Rightarrow> dispatcher" where
  "run cfg turns = foldl (turn_step cfg) newDispatcher turns"

section \<open>Notions used in the statements\<close>

text \<open>
  Two abbreviations for the proofs: the boundary index an iteration computes from the
  candidate chunk, and the length of the chunk it then emits.
\<close>

definition boundary :: "jsstring \<Rightarrow> int" where
  "boundary r = max (lastIndexOf (take DISCORD_MSG_LIMIT r) NL) (lastIndexOf (take DISCORD_MSG_LIMIT r) SP)"

definition chunkLen :: "jsstring \<Rightarrow> nat" where
  "chunkLen r = (if boundary r > 1500 then nat (boundary r) else min DISCORD_MSG_LIMIT (length r))"





text \<open>
  Pages in reverse-chronological order: the first fetch asks for the newest records, and
  each later one for the records before the last record of the page before it.
\<close>

fun paged :: "env \<Rightarrow> jsstring \<Rightarrow> jsstring option \<Rightarrow> event list \<Rightarrow> bool" where
  "paged env ch lastId [] = True"
| "paged env ch lastId (e # evs) =
     (e = Fetch ch (pageOpts lastId) \<and>
      (evs = [] \<or>
       (case fetch_result env ch (pageOpts lastId) of
          Inl err \<Rightarrow> False
        | Inr batch \<Rightarrow> paged env ch (Some (msg_id (last batch))) evs)))"


text \<open>What \<open>processMessage\<close> has done when \<open>Promise.all\<close> resolves.\<close>

definition joined :: "env \<Rightarrow> config \<Rightarrow> message \<Rightarrow> event list" where
  "joined env cfg message =
     (case interleave (schedule env (msg_id message)) (drop 1 (snd (buildPrompt env cfg message)))
             (drop 1 (snd (downloadAttachments env cfg message))) of
        (evs, left) \<Rightarrow> begun env cfg message @ evs @ left)"

text \<open>The attachments \<open>downloadAttachments\<close> starts a download for.\<close>

definition accepted :: "config \<Rightarrow> attachment \<Rightarrow> bool" where
  "accepted cfg a \<longleftrightarrow> isImage a \<and> \<not> int (att_size a) > maxBytes cfg"

text \<open>
  One message at a time: in the events of a channel, the events of each message form one
  block.
\<close>

definition serial :: "(jsstring \<times> event) list \<Rightarrow> bool" where
  "serial t \<longleftrightarrow> distinct (remdups_adj (map fst t))"

text \<open>
  The calls of a channel, the messages accepted for it, and what one call at a time
  means: every call but the last has returned before the next is made.
\<close>

definition calls_of :: "jsstring \<Rightarrow> dispatcher \<Rightarrow> call list" where
  "calls_of ch d = map snd (filter (\<lambda>c. fst c = ch) (calls d))"

fun arrivals :: "config \<Rightarrow> jsstring \<Rightarrow> turn list \<Rightarrow> message list" where
  "arrivals cfg ch [] = []"
| "arrivals cfg ch (Arrives message # turns) =
     (if accepts cfg message \<and> channelId message = ch then message # arrivals cfg ch turns
      else arrivals cfg ch turns)"
| "arrivals cfg ch (Returns c # turns) = arrivals cfg ch turns"

fun called :: "call list \<Rightarrow> message list" where
  "called [] = []"
| "called (Called message # cs) = message # called cs"
| "called (Returned message # cs) = called cs"

fun one_at_a_time :: "call list \<Rightarrow> bool" where
  "one_at_a_time [] = True"
| "one_at_a_time [Called message] = True"
| "one_at_a_time (Called message # Returned message' # cs) = (message = message' \<and> one_at_a_time cs)"
| "one_at_a_time _ = False"

text \<open>The invariant of the dispatcher, channel by channel.\<close>

definition queue_of :: "dispatcher \<Rightarrow> jsstring \<Rightarrow> message list" where
  "queue_of d ch = (case channelQueues d ch of None \<Rightarrow> [] | Some queue \<Rightarrow> queue)"

definition pending :: "call list \<Rightarrow> message option" where
  "pending cs =
     (if cs = [] then None else case last cs of Called message \<Rightarrow> Some message | Returned message \<Rightarrow> None)"

definition dispatcher_inv :: "dispatcher \<Rightarrow> jsstring \<Rightarrow> bool" where
  "dispatcher_inv d ch \<longleftrightarrow>
     one_at_a_time (calls_of ch d) \<and>
     awaited d ch = pending (calls_of ch d) \<and>
     (ch \<in> processingChannels d \<longleftrightarrow> awaited d ch \<noteq> None) \<and>
     (awaited d ch = None \<longrightarrow> queue_of d ch = [])"

section \<open>Sample inputs\<close>

definition sampleMessage :: "nat \<Rightarrow> message" where
  "sampleMessage n =
     \<lparr>msg_id = showNat n, guildId = str ''g'', channelId = str ''c'', author_username = str ''ann'',
      author_bot = False, content = str ''hello'', attachments = [], createdTimestamp = int n\<rparr>"

definition samplePage :: "message list" where
  "samplePage = map sampleMessage [1..<101]"

definition sampleEnv :: env where
  "sampleEnv =
     \<lparr>fetch_result = (\<lambda>ch opts. if before opts = None then Inr samplePage
                                   else Inr [sampleMessage 101, sampleMessage 102]),
      reply_result = (\<lambda>mid text. None),
      download_result = (\<lambda>url dest. None),
      send_result = (\<lambda>prompt atts. Inr (Some (str ''hi there''))),
      clock = (\<lambda>url. 1700000000000),
      tmpdir = str ''/tmp'',
      schedule = (\<lambda>mid. []),
      late = (\<lambda>mid. [])\<rparr>"

definition sampleConfig :: config where
  "sampleConfig =
     \<lparr>DISCORD_GUILD_ID = str ''g'', DISCORD_CHANNEL_ID = None, BLACKLISTED_CHANNELS = [],
      REPLY_TO_BOT = False, CONTEXT_MESSAGE_COUNT = 0, IMAGE_SUPPORT = True, MAX_IMAGE_SIZE_MB = 5\<rparr>"

definition catImage :: attachment where
  "catImage = \<lparr>att_name = str ''cat.png'', att_url = str ''https://cdn/cat.png'',
      att_contentType = Some (str ''image/png''), att_size = 1024\<rparr>"

definition bigImage :: attachment where
  "bigImage = \<lparr>att_name = str ''big.png'', att_url = str ''https://cdn/big.png'',
      att_contentType = Some (str ''image/png''), att_size = 10000000\<rparr>"

definition bigPdf :: attachment where
  "bigPdf = \<lparr>att_name = str ''big.pdf'', att_url = str ''https://cdn/big.pdf'',
      att_contentType = Some (str ''application/pdf''), att_size = 10000000\<rparr>"

definition sampleConfig1 :: config where
  "sampleConfig1 = sampleConfig\<lparr>CONTEXT_MESSAGE_COUNT := 1\<rparr>"

definition catMessage :: message where
  "catMessage = (sampleMessage 7)\<lparr>attachments := [catImage]\<rparr>"

definition mixedMessage :: message where
  "mixedMessage = (sampleMessage 8)\<lparr>attachments := [bigImage, catImage]\<rparr>"

definition pdfMessage :: message where
  "pdfMessage = (sampleMessage 9)\<lparr>attachments := [bigPdf]\<rparr>"

definition pdfCatMessage :: message where
  "pdfCatMessage = (sampleMessage 10)\<lparr>attachments := [catImage, bigPdf]\<rparr>"


text \<open>
  Sample inputs for a history fetch that is refused; the step that is left behind comes
  before the next step of the drain loop.
\<close>

definition otherImage :: attachment where
  "otherImage = \<lparr>att_name = str ''huge.png'', att_url = str ''https://cdn/huge.png'',
      att_contentType = Some (str ''image/png''), att_size = 20000000\<rparr>"

definition twoBigMessage :: message where
  "twoBigMessage = (sampleMessage 1)\<lparr>attachments := [bigImage, otherImage]\<rparr>"

definition denyEnv :: env where
  "denyEnv = sampleEnv\<lparr>fetch_result := (\<lambda>ch opts. Inl (Error (str ''Missing Access''))),
      late := (\<lambda>mid. [False])\<rparr>"

text \<open>A message with two small images.\<close>

definition dogImage :: attachment where
  "dogImage = \<lparr>att_name = str ''dog.png'', att_url = str ''https://cdn/dog.png'',
      att_contentType = Some (str ''image/png''), att_size = 2048\<rparr>"

definition catDogMessage :: message where
  "catDogMessage = (sampleMessage 3)\<lparr>attachments := [catImage, dogImage]\<rparr>"

section \<open>Facts about strings and about one iteration\<close>

lemma lastIndexOf_ge: "-1 \<le> lastIndexOf s c"
  by (induction s) (auto simp: Let_def)

lemma lastIndexOf_lt: "lastIndexOf s c < int (length s)"
  by (induction s) (auto simp: Let_def)

lemma lastIndexOf_notin: "c \<notin> set s \<Longrightarrow> lastIndexOf s c = -1"
  by (induction s) (auto simp: Let_def)


lemma slice_0: "0 \<le> e \<Longrightarrow> slice_js s 0 e = take (nat e) s"
  by (auto simp: slice_js_def Let_def min_def)

lemma sliceFrom_nat: "sliceFrom s (int k) = drop k s"
  by (auto simp: sliceFrom_def slice_js_def Let_def min_def)

lemma boundary_lt: "boundary r < int (min DISCORD_MSG_LIMIT (length r))"
  using lastIndexOf_lt [of "take DISCORD_MSG_LIMIT r" NL] lastIndexOf_lt [of "take DISCORD_MSG_LIMIT r" SP]
  by (auto simp: boundary_def max_def min_def split: if_splits)

lemma splitStep_chunkLen: "splitStep r = (take (chunkLen r) r, trimStart (drop (chunkLen r) r))"
proof (cases "boundary r > 1500")
  case True
  have "nat (boundary r) \<le> DISCORD_MSG_LIMIT"
    using boundary_lt [of r] by (auto simp: min_def split: if_splits)
  then have "take (nat (boundary r)) (take DISCORD_MSG_LIMIT r) = take (nat (boundary r)) r"
    by (simp add: min_def)
  moreover have "length (take (nat (boundary r)) r) = nat (boundary r)"
    using boundary_lt [of r] True by simp
  ultimately show ?thesis using True
    by (simp add: splitStep_def Let_def slice_0 sliceFrom_nat chunkLen_def boundary_def DISCORD_MSG_LIMIT_def)
next
  case False
  then show ?thesis
    by (simp add: splitStep_def Let_def slice_0 sliceFrom_nat chunkLen_def boundary_def DISCORD_MSG_LIMIT_def min_def)
qed

lemma chunkLen_le: "chunkLen r \<le> min DISCORD_MSG_LIMIT (length r)"
  using boundary_lt [of r] by (auto simp: chunkLen_def min_def split: if_splits)

lemma chunkLen_ge: "min 1501 (length r) \<le> chunkLen r"
  by (auto simp: chunkLen_def DISCORD_MSG_LIMIT_def min_def)

lemma chunkLen_pos: "r \<noteq> [] \<Longrightarrow> 0 < chunkLen r"
  using chunkLen_ge [of r] by (cases r) (simp_all add: min_def split: if_splits)

lemma length_trimStart_le: "length (trimStart s) \<le> length s"
  by (simp add: trimStart_def length_dropWhile_le)

lemma splitStep_rest_le: "length (snd (splitStep r)) \<le> length r - chunkLen r"
  using length_trimStart_le [of "drop (chunkLen r) r"] by (simp add: splitStep_chunkLen)

lemma splitStep_shrinks: "r \<noteq> [] \<Longrightarrow> length (snd (splitStep r)) < length r"
  using splitStep_rest_le [of r] chunkLen_pos [of r] by (cases r) simp_all

lemma splitLoop_Nil: "splitLoop acc [] = Some acc"
  by (subst splitLoop.simps) simp

lemma splitLoop_step:
  "r \<noteq> [] \<Longrightarrow> splitLoop acc r = splitLoop (acc @ [fst (splitStep r)]) (snd (splitStep r))"
  by (subst splitLoop.simps) (simp add: split_def)

lemma splitLoop_total: "\<exists>cs. splitLoop acc r = Some (acc @ cs)"
proof (induction "length r" arbitrary: acc r rule: less_induct)
  case less
  show ?case
  proof (cases "r = []")
    case True
    then show ?thesis by (simp add: splitLoop_Nil)
  next
    case False
    from less [OF splitStep_shrinks [OF False], of "acc @ [fst (splitStep r)]"]
    show ?thesis by (auto simp: splitLoop_step [OF False])
  qed
qed

lemma splitLoop_acc: "splitLoop acc r = map_option ((@) acc) (splitLoop [] r)"
proof (induction "length r" arbitrary: acc r rule: less_induct)
  case less
  show ?case
  proof (cases "r = []")
    case True
    then show ?thesis by (simp add: splitLoop_Nil)
  next
    case False
    note IH = less [OF splitStep_shrinks [OF False]]
    have "splitLoop acc r = map_option ((@) (acc @ [fst (splitStep r)])) (splitLoop [] (snd (splitStep r)))"
      using IH [of "acc @ [fst (splitStep r)]"] by (simp add: splitLoop_step [OF False])
    moreover have "splitLoop [] r = map_option ((@) [fst (splitStep r)]) (splitLoop [] (snd (splitStep r)))"
      using IH [of "[fst (splitStep r)]"] by (simp add: splitLoop_step [OF False])
    ultimately show ?thesis by (cases "splitLoop [] (snd (splitStep r))") simp_all
  qed
qed

lemma splitLoop_Cons:
  "r \<noteq> [] \<Longrightarrow> splitLoop [] r = map_option ((#) (take (chunkLen r) r)) (splitLoop [] (trimStart (drop (chunkLen r) r)))"
  using splitLoop_acc [of "[take (chunkLen r) r]" "trimStart (drop (chunkLen r) r)"]
  by (cases "splitLoop [] (trimStart (drop (chunkLen r) r))") (simp_all add: splitLoop_step splitStep_chunkLen)


lemma splitLoop_induct [consumes 1, case_names Nil Cons]:
  assumes "splitLoop [] r = Some cs"
    and "P [] []"
    and "\<And>r cs. r \<noteq> [] \<Longrightarrow> splitLoop [] (trimStart (drop (chunkLen r) r)) = Some cs \<Longrightarrow>
           P (trimStart (drop (chunkLen r) r)) cs \<Longrightarrow> P r (take (chunkLen r) r # cs)"
  shows "P r cs"
  using assms(1)
proof (induction "length r" arbitrary: r cs rule: less_induct)
  case less
  show ?case
  proof (cases "r = []")
    case True
    with less.prems assms(2) show ?thesis by (simp add: splitLoop_Nil)
  next
    case False
    let ?rest = "trimStart (drop (chunkLen r) r)"
    from less.prems obtain cs' where cs': "splitLoop [] ?rest = Some cs'" "cs = take (chunkLen r) r # cs'"
      by (auto simp: splitLoop_Cons [OF False])
    have "length ?rest < length r"
      using splitStep_shrinks [OF False] by (simp add: splitStep_chunkLen)
    from less.hyps [OF this cs'(1)] have "P ?rest cs'" .
    with assms(3) [OF False cs'(1)] cs'(2) show ?thesis by simp
  qed
qed

lemma splitLoop_chunk_bounds:
  "splitLoop [] r = Some cs \<Longrightarrow> \<forall>c\<in>set cs. length c \<le> DISCORD_MSG_LIMIT \<and> c \<noteq> []"
proof (induction rule: splitLoop_induct)
  case Nil
  show ?case by simp
next
  case (Cons r cs)
  from chunkLen_le [of r] chunkLen_pos [OF Cons.hyps(1)] Cons.hyps(1) Cons.IH
  show ?case by (auto simp: min_def split: if_splits)
qed

text \<open>
  Claim C4. A text of at most \<open>DISCORD_MSG_LIMIT\<close> code units is returned as the one
  chunk it is. For a longer text the loop returns, and every chunk it returns is non-empty
  and at most \<open>DISCORD_MSG_LIMIT\<close> code units long.
\<close>

theorem splitMessage_chunks:
  "(length t \<le> DISCORD_MSG_LIMIT \<longrightarrow> splitMessage t = Some [t]) \<and>
   (DISCORD_MSG_LIMIT < length t \<longrightarrow>
      (\<exists>cs. splitMessage t = Some cs \<and> (\<forall>c\<in>set cs. length c \<le> DISCORD_MSG_LIMIT \<and> c \<noteq> [])))"
proof (intro conjI impI)
  assume "length t \<le> DISCORD_MSG_LIMIT"
  then show "splitMessage t = Some [t]" by (simp add: splitMessage_def)
next
  assume long: "DISCORD_MSG_LIMIT < length t"
  from splitLoop_total [of "[]" t] obtain cs where cs: "splitLoop [] t = Some cs" by auto
  from splitLoop_chunk_bounds [OF cs] cs long
  show "\<exists>cs. splitMessage t = Some cs \<and> (\<forall>c\<in>set cs. length c \<le> DISCORD_MSG_LIMIT \<and> c \<noteq> [])"
    by (simp add: splitMessage_def)
qed

theorem splitMessage_chunks_witness:
  "splitMessage [0x68, 0x69] = Some [[0x68, 0x69]] \<and>
   DISCORD_MSG_LIMIT < length (replicate 2001 (0x61 :: code_unit)) \<and>
   (\<exists>cs. splitMessage (replicate 2001 0x61) = Some cs \<and>
         (\<forall>c\<in>set cs. length c \<le> DISCORD_MSG_LIMIT \<and> c \<noteq> []))"
  using splitMessage_chunks [of "[0x68, 0x69]"] splitMessage_chunks [of "replicate 2001 0x61"]
  by (simp add: DISCORD_MSG_LIMIT_def)

subsection \<open>Hard cuts\<close>

lemma ceil_div_one:
  assumes "xs \<noteq> []" "length xs \<le> k"
  shows "(length xs + (k - 1)) div k = Suc 0"
proof (rule div_nat_eqI)
  from assms have "0 < length xs" by simp
  with assms(2) have "k \<le> length xs + (k - 1)" by arith
  then show "k * Suc 0 \<le> length xs + (k - 1)" by simp
  from assms \<open>0 < length xs\<close> have "length xs + (k - 1) < k + k" by arith
  then show "length xs + (k - 1) < k * Suc (Suc 0)" by simp
qed

lemma ceil_div_step:
  assumes "k < (n::nat)" "0 < k"
  shows "(n + (k - 1)) div k = Suc ((n - k + (k - 1)) div k)"
proof -
  have "n + (k - 1) = (n - k + (k - 1)) + k" using assms by arith
  then have "(n + (k - 1)) div k = ((n - k + (k - 1)) + k) div k" by (rule arg_cong)
  also have "\<dots> = (n - k + (k - 1)) div k + 1" using assms(2) by (intro div_add_self2) simp
  finally show ?thesis by simp
qed

lemma boundary_none: "NL \<notin> set r \<Longrightarrow> SP \<notin> set r \<Longrightarrow> boundary r = -1"
proof -
  assume a: "NL \<notin> set r" "SP \<notin> set r"
  have "NL \<notin> set (take DISCORD_MSG_LIMIT r)" "SP \<notin> set (take DISCORD_MSG_LIMIT r)"
    using a by (auto dest: in_set_takeD)
  then show ?thesis by (simp add: boundary_def lastIndexOf_notin)
qed

lemma chunkLen_hard: "NL \<notin> set r \<Longrightarrow> SP \<notin> set r \<Longrightarrow> chunkLen r = min DISCORD_MSG_LIMIT (length r)"
  by (simp add: chunkLen_def boundary_none)

lemma set_trimStart: "set (trimStart s) \<subseteq> set s"
  by (auto simp: trimStart_def dest: set_dropWhileD)

lemma splitLoop_hard:
  "splitLoop [] r = Some cs \<Longrightarrow> NL \<notin> set r \<Longrightarrow> SP \<notin> set r \<Longrightarrow>
     (\<forall>c\<in>set (butlast cs). length c = DISCORD_MSG_LIMIT) \<and>
     length cs \<le> (length r + (DISCORD_MSG_LIMIT - 1)) div DISCORD_MSG_LIMIT"
proof (induction rule: splitLoop_induct)
  case Nil
  show ?case by simp
next
  case (Cons r cs)
  let ?rest = "trimStart (drop (chunkLen r) r)"
  have c: "chunkLen r = min DISCORD_MSG_LIMIT (length r)"
    using Cons.prems by (rule chunkLen_hard)
  have "set ?rest \<subseteq> set r"
    using set_trimStart [of "drop (chunkLen r) r"] set_drop_subset [of "chunkLen r" r] by blast
  with Cons.prems have "NL \<notin> set ?rest" "SP \<notin> set ?rest" by auto
  with Cons.IH have IH: "\<forall>c\<in>set (butlast cs). length c = DISCORD_MSG_LIMIT"
    "length cs \<le> (length ?rest + (DISCORD_MSG_LIMIT - 1)) div DISCORD_MSG_LIMIT" by auto
  have rest_le: "length ?rest \<le> length r - chunkLen r"
    using length_trimStart_le [of "drop (chunkLen r) r"] by simp
  show ?case
  proof (cases "length r \<le> DISCORD_MSG_LIMIT")
    case True
    with c have "?rest = []" by (simp add: trimStart_def)
    with Cons.hyps(2) have "cs = []" by (simp add: splitLoop_Nil)
    then show ?thesis using ceil_div_one [OF Cons.hyps(1) True] by simp
  next
    case False
    with c have c2: "chunkLen r = DISCORD_MSG_LIMIT" by simp
    have "length cs \<le> (length r - DISCORD_MSG_LIMIT + (DISCORD_MSG_LIMIT - 1)) div DISCORD_MSG_LIMIT"
    proof -
      have "length ?rest + (DISCORD_MSG_LIMIT - 1) \<le> length r - DISCORD_MSG_LIMIT + (DISCORD_MSG_LIMIT - 1)"
        using rest_le c2 by simp
      from div_le_mono [OF this, of DISCORD_MSG_LIMIT] IH(2) show ?thesis by (rule le_trans [rotated])
    qed
    then have "Suc (length cs) \<le> (length r + (DISCORD_MSG_LIMIT - 1)) div DISCORD_MSG_LIMIT"
      using False ceil_div_step [of DISCORD_MSG_LIMIT "length r"] by (simp add: DISCORD_MSG_LIMIT_def)
    moreover have "length (take (chunkLen r) r) = DISCORD_MSG_LIMIT" using c2 False by simp
    ultimately show ?thesis using IH(1) by (auto simp: butlast.simps)
  qed
qed

lemma trimStart_id: "\<forall>c\<in>set s. \<not> isWhiteSpace c \<Longrightarrow> trimStart s = s"
  by (cases s) (simp_all add: trimStart_def)

lemma splitLoop_token:
  "splitLoop [] r = Some cs \<Longrightarrow> \<forall>c\<in>set r. \<not> isWhiteSpace c \<Longrightarrow> NL \<notin> set r \<Longrightarrow> SP \<notin> set r \<Longrightarrow>
     length cs = (length r + (DISCORD_MSG_LIMIT - 1)) div DISCORD_MSG_LIMIT \<and> concat cs = r"
proof (induction rule: splitLoop_induct)
  case Nil
  show ?case by (simp add: DISCORD_MSG_LIMIT_def)
next
  case (Cons r cs)
  have c: "chunkLen r = min DISCORD_MSG_LIMIT (length r)"
    using Cons.prems(2,3) by (rule chunkLen_hard)
  have nows: "\<forall>c\<in>set (drop (chunkLen r) r). \<not> isWhiteSpace c"
    using Cons.prems(1) by (auto dest: in_set_dropD)
  then have rest: "trimStart (drop (chunkLen r) r) = drop (chunkLen r) r" by (rule trimStart_id)
  have "NL \<notin> set (drop (chunkLen r) r)" "SP \<notin> set (drop (chunkLen r) r)"
    using Cons.prems(2,3) by (auto dest: in_set_dropD)
  with Cons.IH nows rest
  have IH: "length cs = (length r - chunkLen r + (DISCORD_MSG_LIMIT - 1)) div DISCORD_MSG_LIMIT"
    "concat cs = drop (chunkLen r) r" by auto
  show ?case
  proof (cases "length r \<le> DISCORD_MSG_LIMIT")
    case True
    then show ?thesis using IH c ceil_div_one [OF Cons.hyps(1) True] by (simp add: DISCORD_MSG_LIMIT_def)
  next
    case False
    then show ?thesis using IH c ceil_div_step [of DISCORD_MSG_LIMIT "length r"]
      by (simp add: DISCORD_MSG_LIMIT_def)
  qed
qed

text \<open>
  Claim C6, as the code has it. A text longer than \<open>DISCORD_MSG_LIMIT\<close> with no newline
  and no space is cut at multiples of the limit: every chunk but the last is exactly
  \<open>DISCORD_MSG_LIMIT\<close> long, none is longer, and there are at most
  \<open>ceil (length / limit)\<close> chunks. When the text has no white space of any kind the
  count is exactly \<open>ceil (length / limit)\<close> and the chunks concatenate to the text.
\<close>

theorem splitMessage_hard_cut:
  assumes "DISCORD_MSG_LIMIT < length t" "NL \<notin> set t" "SP \<notin> set t"
  shows "\<exists>cs. splitMessage t = Some cs \<and>
           (\<forall>c\<in>set (butlast cs). length c = DISCORD_MSG_LIMIT) \<and>
           (\<forall>c\<in>set cs. length c \<le> DISCORD_MSG_LIMIT) \<and>
           length cs \<le> (length t + (DISCORD_MSG_LIMIT - 1)) div DISCORD_MSG_LIMIT \<and>
           ((\<forall>c\<in>set t. \<not> isWhiteSpace c) \<longrightarrow>
              length cs = (length t + (DISCORD_MSG_LIMIT - 1)) div DISCORD_MSG_LIMIT \<and> concat cs = t)"
proof -
  from splitLoop_total [of "[]" t] obtain cs where cs: "splitLoop [] t = Some cs" by auto
  from assms(1) cs have "splitMessage t = Some cs" by (simp add: splitMessage_def)
  moreover from splitLoop_hard [OF cs assms(2,3)]
  have "\<forall>c\<in>set (butlast cs). length c = DISCORD_MSG_LIMIT"
    "length cs \<le> (length t + (DISCORD_MSG_LIMIT - 1)) div DISCORD_MSG_LIMIT" by simp_all
  moreover from splitLoop_chunk_bounds [OF cs] have "\<forall>c\<in>set cs. length c \<le> DISCORD_MSG_LIMIT" by simp
  moreover have "(\<forall>c\<in>set t. \<not> isWhiteSpace c) \<longrightarrow>
      length cs = (length t + (DISCORD_MSG_LIMIT - 1)) div DISCORD_MSG_LIMIT \<and> concat cs = t"
    using splitLoop_token [OF cs _ assms(2,3)] by blast
  ultimately show ?thesis by blast
qed

theorem splitMessage_hard_cut_witness:
  "DISCORD_MSG_LIMIT < length (replicate 4500 (0x61 :: code_unit)) \<and>
   NL \<notin> set (replicate 4500 (0x61 :: code_unit)) \<and> SP \<notin> set (replicate 4500 (0x61 :: code_unit)) \<and>
   (\<exists>cs. splitMessage (replicate 4500 0x61) = Some cs \<and>
      (\<forall>c\<in>set (butlast cs). length c = DISCORD_MSG_LIMIT) \<and>
      (\<forall>c\<in>set cs. length c \<le> DISCORD_MSG_LIMIT) \<and>
      length cs = 3 \<and> concat cs = replicate 4500 0x61)"
proof -
  have h: "DISCORD_MSG_LIMIT < length (replicate 4500 (0x61 :: code_unit))"
    "NL \<notin> set (replicate 4500 (0x61 :: code_unit))" "SP \<notin> set (replicate 4500 (0x61 :: code_unit))"
    by (simp_all add: DISCORD_MSG_LIMIT_def NL_def SP_def)
  have w: "\<forall>c\<in>set (replicate 4500 (0x61 :: code_unit)). \<not> isWhiteSpace c"
    by (simp add: isWhiteSpace_def)
  have n: "(length (replicate 4500 (0x61 :: code_unit)) + (DISCORD_MSG_LIMIT - 1)) div DISCORD_MSG_LIMIT = 3"
    by (simp add: DISCORD_MSG_LIMIT_def)
  from splitMessage_hard_cut [OF h] w n h show ?thesis by auto
qed

text \<open>
  The count can fall short of \<open>ceil (length / limit)\<close> when the text has white space
  other than newline and space: \<open>trimStart\<close> removes a tab that follows a hard cut, so
  2000 letters and a tab give one chunk, where \<open>ceil (2001 / 2000) = 2\<close>.
\<close>

lemma splitLoop_tab:
  "splitLoop [] (replicate 2000 (0x61 :: code_unit) @ [0x09]) = Some [replicate 2000 0x61]"
proof -
  let ?t = "replicate 2000 (0x61 :: code_unit) @ [0x09]"
  have "chunkLen ?t = 2000"
    by (subst chunkLen_hard) (simp_all add: NL_def SP_def DISCORD_MSG_LIMIT_def)
  moreover have "trimStart [0x09] = []" by (simp add: trimStart_def isWhiteSpace_def)
  ultimately show ?thesis
    by (subst splitLoop_Cons) (simp_all add: splitLoop_Nil)
qed

theorem splitMessage_hard_cut_counterexample:
  "DISCORD_MSG_LIMIT < length (replicate 2000 (0x61 :: code_unit) @ [0x09]) \<and>
   NL \<notin> set (replicate 2000 (0x61 :: code_unit) @ [0x09]) \<and>
   SP \<notin> set (replicate 2000 (0x61 :: code_unit) @ [0x09]) \<and>
   splitMessage (replicate 2000 0x61 @ [0x09]) = Some [replicate 2000 0x61] \<and>
   length [replicate 2000 (0x61 :: code_unit)] \<noteq>
     (length (replicate 2000 (0x61 :: code_unit) @ [0x09]) + (DISCORD_MSG_LIMIT - 1)) div DISCORD_MSG_LIMIT"
  using splitLoop_tab by (simp add: splitMessage_def DISCORD_MSG_LIMIT_def NL_def SP_def)

subsection \<open>Joining the chunks again\<close>















lemma trimEnd_Nil_iff: "trimEnd s = [] \<longleftrightarrow> (\<forall>x\<in>set s. isWhiteSpace x)"
  by (simp add: trimEnd_def)





















subsection \<open>Termination\<close>

text \<open>
  Claim C10, as the code has it. \<open>splitMessage\<close> returns for every text, and so does
  the loop from every state. An iteration on a non-empty remainder emits a non-empty
  chunk of at least \<open>DISCORD_MSG_LIMIT - 499 = 1501\<close> code units, or the whole remainder
  when that is shorter; the new remainder is what follows the chunk, trimmed, so it is
  strictly shorter.
\<close>

theorem splitMessage_terminates:
  "(\<exists>cs. splitMessage t = Some cs) \<and> (\<exists>cs. splitLoop acc r = Some (acc @ cs)) \<and>
   (r \<noteq> [] \<longrightarrow>
      fst (splitStep r) \<noteq> [] \<and>
      min (DISCORD_MSG_LIMIT - 499) (length r) \<le> length (fst (splitStep r)) \<and>
      length (snd (splitStep r)) \<le> length r - length (fst (splitStep r)) \<and>
      length (snd (splitStep r)) < length r)"
proof (intro conjI impI)
  show "\<exists>cs. splitMessage t = Some cs"
    using splitLoop_total [of "[]" t] by (auto simp: splitMessage_def)
  show "\<exists>cs. splitLoop acc r = Some (acc @ cs)" by (rule splitLoop_total)
next
  assume r: "r \<noteq> []"
  have len: "length (fst (splitStep r)) = chunkLen r"
    using chunkLen_le [of r] by (simp add: splitStep_chunkLen)
  from chunkLen_pos [OF r] len show "fst (splitStep r) \<noteq> []" by auto
  from chunkLen_ge [of r] len
  show "min (DISCORD_MSG_LIMIT - 499) (length r) \<le> length (fst (splitStep r))"
    by (simp add: DISCORD_MSG_LIMIT_def)
  from splitStep_rest_le [of r] len
  show "length (snd (splitStep r)) \<le> length r - length (fst (splitStep r))" by simp
  from splitStep_shrinks [OF r] show "length (snd (splitStep r)) < length r" .
qed

theorem splitMessage_terminates_witness:
  "(\<exists>cs. splitMessage (replicate 2003 0x61) = Some cs) \<and>
   (\<exists>cs. splitLoop [] (replicate 2003 0x61) = Some ([] @ cs)) \<and>
   replicate 2003 (0x61 :: code_unit) \<noteq> [] \<and>
   fst (splitStep (replicate 2003 0x61)) \<noteq> [] \<and>
   1501 \<le> length (fst (splitStep (replicate 2003 0x61))) \<and>
   length (snd (splitStep (replicate 2003 0x61))) < 2003"
  using splitMessage_terminates [of "replicate 2003 0x61" "[]" "replicate 2003 0x61"]
  by (simp add: DISCORD_MSG_LIMIT_def)

text \<open>
  An iteration on a short remainder consumes fewer than 1501 code units: the text of 2000
  letters followed by \<open>abc\<close> leaves the remainder \<open>abc\<close>, and the second iteration
  consumes these three.
\<close>

theorem splitMessage_terminates_counterexample:
  "snd (splitStep (replicate 2000 0x61 @ [0x61, 0x62, 0x63])) = [0x61, 0x62, 0x63] \<and>
   snd (splitStep [0x61, 0x62, 0x63]) = [] \<and>
   \<not> DISCORD_MSG_LIMIT - 499 \<le> length [0x61 :: code_unit, 0x62, 0x63] - length (snd (splitStep [0x61, 0x62, 0x63]))"
proof -
  have a: "chunkLen (replicate 2000 0x61 @ [0x61, 0x62, 0x63]) = 2000"
    by (subst chunkLen_hard) (simp_all add: NL_def SP_def DISCORD_MSG_LIMIT_def)
  have b: "chunkLen [0x61, 0x62, 0x63] = 3"
    by (subst chunkLen_hard) (simp_all add: NL_def SP_def DISCORD_MSG_LIMIT_def)
  show ?thesis
    by (simp add: splitStep_chunkLen a b trimStart_def isWhiteSpace_def DISCORD_MSG_LIMIT_def)
qed

section \<open>Model selection\<close>


lemma find_MODELS_None: "modelId \<notin> set (map model_id MODELS) \<Longrightarrow> find (\<lambda>m. model_id m = modelId) MODELS = None"
  by (auto simp: find_None_iff)

lemma find_MODELS_Some: "modelId \<in> set (map model_id MODELS) \<Longrightarrow> \<exists>v. find (\<lambda>m. model_id m = modelId) MODELS = Some v"
  by (cases "find (\<lambda>m. model_id m = modelId) MODELS") (auto simp: find_None_iff)

text \<open>
  Claim C9, as the code has it. For an identifier that is not in the catalog, \<open>setModel\<close>
  fails with the unknown-model error and leaves the manager as it was, so \<open>send\<close> still
  posts the model selected before; this holds on both transports. For an identifier of
  the catalog, \<open>setModel\<close> sets the selected model to it. On the stateless transport it
  then returns and \<open>send\<close> posts the new model. On the session transport \<open>send\<close> uses
  a session of the new model when \<open>setModel\<close> returns without an error, that is when the
  SDK could create the session.
\<close>

theorem setModel_catalog:
  "(modelId \<notin> set (map model_id MODELS) \<longrightarrow>
      setModel modelId this = (Inl (unknownModel modelId), this) \<and>
      req_model (send_request (snd (setModel modelId this)) prompt atts) = model this \<and>
      setModel_session sdk modelId sthis = (Inl (unknownModel modelId), sthis)) \<and>
   (modelId \<in> set (map model_id MODELS) \<longrightarrow>
      setModel modelId this = (Inr (), this\<lparr>model := modelId\<rparr>) \<and>
      req_model (send_request (snd (setModel modelId this)) prompt atts) = modelId \<and>
      s_model (snd (setModel_session sdk modelId sthis)) = modelId \<and>
      (fst (setModel_session sdk modelId sthis) = Inr () \<longrightarrow>
         send_session (snd (setModel_session sdk modelId sthis)) =
           Some \<lparr>session_model = modelId, destroyed = False\<rparr>))"
proof (intro conjI impI)
  assume "modelId \<notin> set (map model_id MODELS)"
  note n = find_MODELS_None [OF this]
  show "setModel modelId this = (Inl (unknownModel modelId), this)" by (simp add: setModel_def n)
  show "req_model (send_request (snd (setModel modelId this)) prompt atts) = model this"
    by (simp add: setModel_def n send_request_def)
  show "setModel_session sdk modelId sthis = (Inl (unknownModel modelId), sthis)"
    by (simp add: setModel_session_def n)
next
  assume "modelId \<in> set (map model_id MODELS)"
  from find_MODELS_Some [OF this] obtain v where v: "find (\<lambda>m. model_id m = modelId) MODELS = Some v" ..
  show "setModel modelId this = (Inr (), this\<lparr>model := modelId\<rparr>)" by (simp add: setModel_def v)
  show "req_model (send_request (snd (setModel modelId this)) prompt atts) = modelId"
    by (simp add: setModel_def v send_request_def)
  show "s_model (snd (setModel_session sdk modelId sthis)) = modelId"
    by (simp add: setModel_session_def v createSession_def Let_def split: option.splits)
  assume "fst (setModel_session sdk modelId sthis) = Inr ()"
  then show "send_session (snd (setModel_session sdk modelId sthis)) =
           Some \<lparr>session_model = modelId, destroyed = False\<rparr>"
    by (auto simp: setModel_session_def v createSession_def Let_def send_session_def split: option.splits if_splits)
qed

theorem setModel_catalog_witness:
  "str ''gpt-4'' \<notin> set (map model_id MODELS) \<and>
   setModel (str ''gpt-4'') \<lparr>token = None, model = DEFAULT_MODEL\<rparr> =
     (Inl (unknownModel (str ''gpt-4'')), \<lparr>token = None, model = DEFAULT_MODEL\<rparr>) \<and>
   str ''gpt-4o'' \<in> set (map model_id MODELS) \<and>
   req_model (send_request (snd (setModel (str ''gpt-4o'') \<lparr>token = None, model = DEFAULT_MODEL\<rparr>)) [] []) =
     str ''gpt-4o'' \<and>
   fst (setModel_session (\<lambda>m. None) (str ''gpt-4o'')
     \<lparr>s_token = None, s_client = True,
      s_session = Some \<lparr>session_model = DEFAULT_MODEL, destroyed = False\<rparr>, s_model = DEFAULT_MODEL\<rparr>) = Inr () \<and>
   send_session (snd (setModel_session (\<lambda>m. None) (str ''gpt-4o'')
     \<lparr>s_token = None, s_client = True,
      s_session = Some \<lparr>session_model = DEFAULT_MODEL, destroyed = False\<rparr>, s_model = DEFAULT_MODEL\<rparr>)) =
     Some \<lparr>session_model = str ''gpt-4o'', destroyed = False\<rparr>"
proof -
  have a: "str ''gpt-4'' \<notin> set (map model_id MODELS)" by (simp add: MODELS_def str_def)
  have b: "str ''gpt-4o'' \<in> set (map model_id MODELS)" by (simp add: MODELS_def str_def)
  have c: "fst (setModel_session (\<lambda>m. None) (str ''gpt-4o'')
     \<lparr>s_token = None, s_client = True,
      s_session = Some \<lparr>session_model = DEFAULT_MODEL, destroyed = False\<rparr>, s_model = DEFAULT_MODEL\<rparr>) = Inr ()"
    by (simp add: setModel_session_def MODELS_def str_def createSession_def)
  from a b c
    setModel_catalog [of "str ''gpt-4''" "\<lparr>token = None, model = DEFAULT_MODEL\<rparr>"]
    setModel_catalog [of "str ''gpt-4o''" "\<lparr>token = None, model = DEFAULT_MODEL\<rparr>" "[]" "[]" "\<lambda>m. None"
      "\<lparr>s_token = None, s_client = True,
      s_session = Some \<lparr>session_model = DEFAULT_MODEL, destroyed = False\<rparr>, s_model = DEFAULT_MODEL\<rparr>"]
  show ?thesis by blast
qed

text \<open>
  On the session transport the model is assigned before the session is created. When the
  SDK refuses the session, \<open>setModel\<close> fails with the selection already changed, and the
  manager keeps the old session, destroyed, of the old model.
\<close>

theorem setModel_catalog_counterexample:
  "str ''gpt-4o'' \<in> set (map model_id MODELS) \<and>
   setModel_session (\<lambda>m. Some (Error (str ''402''))) (str ''gpt-4o'')
     \<lparr>s_token = None, s_client = True,
      s_session = Some \<lparr>session_model = str ''gpt-4.1'', destroyed = False\<rparr>, s_model = str ''gpt-4.1''\<rparr> =
     (Inl (Error (str ''402'')),
      \<lparr>s_token = None, s_client = True,
       s_session = Some \<lparr>session_model = str ''gpt-4.1'', destroyed = True\<rparr>, s_model = str ''gpt-4o''\<rparr>) \<and>
   str ''gpt-4.1'' \<noteq> str ''gpt-4o''"
  by (simp add: setModel_session_def MODELS_def str_def createSession_def)

section \<open>The history fetch of \<open>buildPrompt\<close>\<close>

lemma fetchAll_cases [consumes 1, case_names finished failed short_page full_page]:
  assumes "fetchAll env ch history lastId = (r, evs)"
  obtains
    (finished) "\<not> length history < 1000" "r = Inr history" "evs = []"
  | (failed) e where "length history < 1000" "fetch_result env ch (pageOpts lastId) = Inl e"
      "r = Inl e" "evs = [Fetch ch (pageOpts lastId)]"
  | (short_page) batch where "length history < 1000" "fetch_result env ch (pageOpts lastId) = Inr batch"
      "length batch < 100" "r = Inr (history @ batch)" "evs = [Fetch ch (pageOpts lastId)]"
  | (full_page) batch evs' where "length history < 1000" "fetch_result env ch (pageOpts lastId) = Inr batch"
      "\<not> length batch < 100" "fetchAll env ch (history @ batch) (Some (msg_id (last batch))) = (r, evs')"
      "evs = Fetch ch (pageOpts lastId) # evs'"
proof (cases "length history < 1000")
  case False
  with assms finished show ?thesis by (simp add: fetchAll.simps [of env ch history lastId])
next
  case True
  show ?thesis
  proof (cases "fetch_result env ch (pageOpts lastId)")
    case (Inl e)
    with assms True have "r = Inl e" "evs = [Fetch ch (pageOpts lastId)]"
      by (simp_all add: fetchAll.simps [of env ch history lastId])
    with failed True Inl show ?thesis by blast
  next
    case (Inr batch)
    show ?thesis
    proof (cases "length batch < 100")
      case short': True
      with assms \<open>length history < 1000\<close> Inr have "r = Inr (history @ batch)" "evs = [Fetch ch (pageOpts lastId)]"
        by (simp_all add: fetchAll.simps [of env ch history lastId])
      with short_page \<open>length history < 1000\<close> Inr short' show ?thesis by blast
    next
      case False
      obtain r' evs' where rec: "fetchAll env ch (history @ batch) (Some (msg_id (last batch))) = (r', evs')"
        by (cases "fetchAll env ch (history @ batch) (Some (msg_id (last batch)))")
      with assms True Inr False have "r = r'" "evs = Fetch ch (pageOpts lastId) # evs'"
        by (simp_all add: fetchAll.simps [of env ch history lastId])
      with full_page True Inr False rec show ?thesis by blast
    qed
  qed
qed

lemma fetchAll_fetches:
  "fetchAll env ch history lastId = (r, evs) \<Longrightarrow> \<forall>e\<in>set evs. \<exists>opts. e = Fetch ch opts \<and> limit opts = 100"
proof (induction "1000 - length history" arbitrary: history lastId r evs rule: less_induct)
  case less
  from less.prems show ?case
  proof (cases rule: fetchAll_cases)
    case (full_page batch evs')
    then have "1000 - length (history @ batch) < 1000 - length history" by simp
    from less.hyps [OF this full_page(4)] full_page(5) show ?thesis by (simp add: pageOpts_def)
  qed (simp_all add: pageOpts_def)
qed

lemma fetchAll_count:
  "fetchAll env ch history lastId = (r, evs) \<Longrightarrow> 100 * length evs + min (length history) 1000 \<le> 1099"
proof (induction "1000 - length history" arbitrary: history lastId r evs rule: less_induct)
  case less
  from less.prems show ?case
  proof (cases rule: fetchAll_cases)
    case (full_page batch evs')
    then have "1000 - length (history @ batch) < 1000 - length history" by simp
    note IH = less.hyps [OF this full_page(4)]
    show ?thesis
    proof (cases "length (history @ batch) < 1000")
      case True
      with IH full_page(1,3,5) show ?thesis by simp
    next
      case False
      with full_page(4) have "evs' = []" by (cases rule: fetchAll_cases) simp_all
      with full_page(1,5) show ?thesis by simp
    qed
  qed simp_all
qed

lemma pageResults_length:
  "\<forall>e\<in>set evs. \<exists>opts. e = Fetch ch opts \<and> limit opts = 100 \<Longrightarrow> length (pageResults env evs) = length evs"
  by (induction evs) (auto simp: pageResults_def)

lemma fetchAll_pages:
  assumes pages: "\<And>opts b. fetch_result env ch opts = Inr b \<Longrightarrow> length b \<le> 100"
  shows "fetchAll env ch history lastId = (r, evs) \<Longrightarrow> length history mod 100 = 0 \<Longrightarrow>
         length history \<le> 1000 \<Longrightarrow>
     (\<forall>p\<in>set (butlast (pageResults env evs)). \<exists>b. p = Inr b \<and> length b = 100) \<and>
     (case r of
        Inl e \<Rightarrow> evs \<noteq> [] \<and> last (pageResults env evs) = Inl e
      | Inr h \<Rightarrow>
          length h \<le> 1000 \<and>
          (\<exists>bs. pageResults env evs = map Inr bs \<and> h = history @ concat bs \<and>
                (length history < 1000 \<longrightarrow> bs \<noteq> [] \<and> (length (last bs) < 100 \<or> length h = 1000))))"
proof (induction "1000 - length history" arbitrary: history lastId r evs rule: less_induct)
  case less
  from less.prems(1) show ?case
  proof (cases rule: fetchAll_cases)
    case finished
    with less.prems show ?thesis by (simp add: pageResults_def)
  next
    case (failed e)
    then show ?thesis by (simp add: pageResults_def)
  next
    case (short_page batch)
    have "length history \<le> 900" using less.prems(2,3) short_page(1) by presburger
    with short_page show ?thesis by (auto simp: pageResults_def intro!: exI [of _ "[batch]"])
  next
    case (full_page batch evs')
    from pages [OF full_page(2)] full_page(3) have full: "length batch = 100" by simp
    have le: "length history \<le> 900" using less.prems(2,3) full_page(1) by presburger
    have dec: "1000 - length (history @ batch) < 1000 - length history" using full_page(1) full by simp
    have m: "length (history @ batch) mod 100 = 0" using less.prems(2) full by simp
    have b: "length (history @ batch) \<le> 1000" using le full by simp
    note IH = less.hyps [OF dec full_page(4) m b]
    have pr: "pageResults env evs = Inr batch # pageResults env evs'"
      using full_page(2,5) by (simp add: pageResults_def)
    have bl: "\<forall>p\<in>set (butlast (pageResults env evs)). \<exists>b. p = Inr b \<and> length b = 100"
      using IH full pr by (auto simp: butlast.simps split: if_splits)
    show ?thesis
    proof (cases r)
      case (Inl e)
      with IH have "evs' \<noteq> []" "last (pageResults env evs') = Inl e" by simp_all
      moreover then have "pageResults env evs' \<noteq> []"
        using pageResults_length [OF fetchAll_fetches [OF full_page(4)], of env] by auto
      ultimately show ?thesis using bl Inl pr full_page(5) by simp
    next
      case (Inr h)
      with IH have "length h \<le> 1000 \<and> (\<exists>bs. pageResults env evs' = map Inr bs \<and>
          h = (history @ batch) @ concat bs \<and>
          (length (history @ batch) < 1000 \<longrightarrow> bs \<noteq> [] \<and> (length (last bs) < 100 \<or> length h = 1000)))"
        by simp
      then obtain bs where bs: "length h \<le> 1000" "pageResults env evs' = map Inr bs"
        "h = (history @ batch) @ concat bs"
        "length (history @ batch) < 1000 \<longrightarrow> bs \<noteq> [] \<and> (length (last bs) < 100 \<or> length h = 1000)"
        by blast
      have "pageResults env evs = map Inr (batch # bs)" using pr bs(2) by simp
      moreover have "h = history @ concat (batch # bs)" using bs(3) by simp
      moreover have "length (last (batch # bs)) < 100 \<or> length h = 1000"
      proof (cases "length (history @ batch) < 1000")
        case True
        with bs(4) show ?thesis by auto
      next
        case False
        with full_page(4) have "r = Inr (history @ batch)"
          by (cases rule: fetchAll_cases) simp_all
        with Inr b False show ?thesis by simp
      qed
      ultimately show ?thesis using bl Inr bs(1) by (intro conjI) (auto intro!: exI [of _ "batch # bs"])
    qed
  qed
qed


lemma fetchAll_paged: "fetchAll env ch history lastId = (r, evs) \<Longrightarrow> paged env ch lastId evs"
proof (induction "1000 - length history" arbitrary: history lastId r evs rule: less_induct)
  case less
  from less.prems show ?case
  proof (cases rule: fetchAll_cases)
    case (full_page batch evs')
    then have "1000 - length (history @ batch) < 1000 - length history" by simp
    from less.hyps [OF this full_page(4)] full_page(2,5) show ?thesis by simp
  qed simp_all
qed

text \<open>
  Claim C8. With \<open>CONTEXT_MESSAGE_COUNT = 0\<close>, and a gateway that returns at most the
  100 records asked for, the fetches of \<open>buildPrompt\<close> are those of the loop: at most ten,
  each with \<open>limit: 100\<close>, in reverse-chronological pages. Every page but the last held
  exactly 100 records, so a fetch was made only while fewer than 1000 records were
  collected and no page had come back short. When the loop returns a history, the last
  page held fewer than 100 records or exactly 1000 records are collected, and never more
  than 1000. A fetch that fails is the last one, and \<open>buildPrompt\<close> fails with its error.
\<close>

theorem buildPrompt_unlimited:
  assumes count: "CONTEXT_MESSAGE_COUNT cfg = 0"
    and pages: "\<forall>opts b. fetch_result env (channelId message) opts = Inr b \<longrightarrow> length b \<le> 100"
  shows "snd (buildPrompt env cfg message) = snd (fetchAll env (channelId message) [] None) \<and>
    (case fetchAll env (channelId message) [] None of
       (r, evs) \<Rightarrow>
         length evs \<le> 10 \<and> paged env (channelId message) None evs \<and>
         (\<forall>e\<in>set evs. \<exists>opts. e = Fetch (channelId message) opts \<and> limit opts = 100) \<and>
         (\<forall>p\<in>set (butlast (pageResults env evs)). \<exists>b. p = Inr b \<and> length b = 100) \<and>
         (case r of
            Inl e \<Rightarrow> evs \<noteq> [] \<and> last (pageResults env evs) = Inl e \<and>
                     fst (buildPrompt env cfg message) = Inl e
          | Inr h \<Rightarrow>
              length h \<le> 1000 \<and>
              (\<exists>bs. pageResults env evs = map Inr bs \<and> h = concat bs \<and> bs \<noteq> [] \<and>
                    (length (last bs) < 100 \<or> length h = 1000))))"
proof -
  obtain r evs where f: "fetchAll env (channelId message) [] None = (r, evs)"
    by (cases "fetchAll env (channelId message) [] None")
  have a: "snd (buildPrompt env cfg message) = evs"
    using count f by (cases r) (simp_all add: buildPrompt_def Let_def)
  have b: "length evs \<le> 10" using fetchAll_count [OF f] by simp
  note c = fetchAll_paged [OF f] fetchAll_fetches [OF f]
  have d: "(\<forall>p\<in>set (butlast (pageResults env evs)). \<exists>b. p = Inr b \<and> length b = 100) \<and>
     (case r of
        Inl e \<Rightarrow> evs \<noteq> [] \<and> last (pageResults env evs) = Inl e
      | Inr h \<Rightarrow>
          length h \<le> 1000 \<and>
          (\<exists>bs. pageResults env evs = map Inr bs \<and> h = [] @ concat bs \<and>
                (length ([] :: message list) < 1000 \<longrightarrow> bs \<noteq> [] \<and> (length (last bs) < 100 \<or> length h = 1000))))"
    using pages by (intro fetchAll_pages [OF _ f]) simp_all
  have e: "\<And>e. r = Inl e \<Longrightarrow> fst (buildPrompt env cfg message) = Inl e"
    using count f by (simp add: buildPrompt_def Let_def)
  show ?thesis
  proof (cases r)
    case (Inl x)
    with a b c d e f show ?thesis by simp
  next
    case (Inr h)
    with a b c d f show ?thesis by simp
  qed
qed

lemma samplePage_length: "length samplePage = 100"
  by (simp add: samplePage_def)

lemma samplePage_last: "msg_id (last samplePage) = str ''100''"
  by (simp add: samplePage_def last_map sampleMessage_def showNat.simps str_def)

lemma sample_fetch_first: "fetch_result sampleEnv ch (pageOpts None) = Inr samplePage"
  by (simp add: sampleEnv_def pageOpts_def)

lemma sample_fetch_next:
  "fetch_result sampleEnv ch (pageOpts (Some (str ''100''))) = Inr [sampleMessage 101, sampleMessage 102]"
  by (simp add: sampleEnv_def pageOpts_def str_def)

lemma sample_fetchAll:
  "fetchAll sampleEnv (str ''c'') [] None =
     (Inr (samplePage @ [sampleMessage 101, sampleMessage 102]),
      [Fetch (str ''c'') (pageOpts None), Fetch (str ''c'') (pageOpts (Some (str ''100'')))])"
proof -
  have "fetchAll sampleEnv (str ''c'') samplePage (Some (str ''100'')) =
      (Inr (samplePage @ [sampleMessage 101, sampleMessage 102]),
       [Fetch (str ''c'') (pageOpts (Some (str ''100'')))])"
    by (subst fetchAll.simps) (simp add: sample_fetch_next samplePage_length)
  then show ?thesis
    by (subst fetchAll.simps) (simp add: sample_fetch_first samplePage_length samplePage_last)
qed

theorem buildPrompt_unlimited_witness:
  "CONTEXT_MESSAGE_COUNT sampleConfig = 0 \<and>
   snd (buildPrompt sampleEnv sampleConfig (sampleMessage 103)) =
     [Fetch (str ''c'') \<lparr>limit = 100, before = None\<rparr>,
      Fetch (str ''c'') \<lparr>limit = 100, before = Some (str ''100'')\<rparr>] \<and>
   pageResults sampleEnv (snd (buildPrompt sampleEnv sampleConfig (sampleMessage 103))) =
     [Inr samplePage, Inr [sampleMessage 101, sampleMessage 102]] \<and>
   length samplePage = 100 \<and>
   length [sampleMessage 101, sampleMessage 102] < 100"
proof -
  have c: "CONTEXT_MESSAGE_COUNT sampleConfig = 0" by (simp add: sampleConfig_def)
  have ch: "channelId (sampleMessage 103) = str ''c''" by (simp add: sampleMessage_def)
  have p: "\<forall>opts b. fetch_result sampleEnv (channelId (sampleMessage 103)) opts = Inr b \<longrightarrow> length b \<le> 100"
    by (auto simp: sampleEnv_def samplePage_length split: if_splits)
  have o: "pageOpts None = \<lparr>limit = 100, before = None\<rparr>"
    "pageOpts (Some (str ''100'')) = \<lparr>limit = 100, before = Some (str ''100'')\<rparr>"
    by (simp_all add: pageOpts_def str_def)
  have r: "pageResults sampleEnv
     [Fetch (str ''c'') (pageOpts None), Fetch (str ''c'') (pageOpts (Some (str ''100'')))] =
     [Inr samplePage, Inr [sampleMessage 101, sampleMessage 102]]"
    by (simp add: pageResults_def sample_fetch_first sample_fetch_next)
  from buildPrompt_unlimited [OF c p] have
    "snd (buildPrompt sampleEnv sampleConfig (sampleMessage 103)) =
       [Fetch (str ''c'') (pageOpts None), Fetch (str ''c'') (pageOpts (Some (str ''100'')))]"
    by (simp add: ch sample_fetchAll)
  with c r o show ?thesis by (simp add: samplePage_length)
qed

section \<open>Processing one message\<close>

lemma interleave_set:
  "set (fst (interleave sched xs ys)) \<union> set (snd (interleave sched xs ys)) = set xs \<union> set ys"
  by (induction sched xs ys rule: interleave.induct) (auto simp: case_prod_unfold)

lemma interleave_left: "set (snd (interleave sched xs ys)) \<subseteq> set ys"
  by (induction sched xs ys rule: interleave.induct) (auto simp: case_prod_unfold)

lemma interleave_Nil: "interleave sched xs [] = (xs, [])"
  by (induction sched xs "[] :: 'a list" rule: interleave.induct) simp_all




lemma downloadLoop_append:
  "downloadLoop env cfg m (xs @ ys) =
     (fst (downloadLoop env cfg m xs) @ fst (downloadLoop env cfg m ys),
      snd (downloadLoop env cfg m xs) @ snd (downloadLoop env cfg m ys))"
  by (induction xs) (auto split: prod.splits option.splits)

lemma buildPrompt_events: "e \<in> set (snd (buildPrompt env cfg m)) \<Longrightarrow> \<exists>ch opts. e = Fetch ch opts"
proof -
  assume e: "e \<in> set (snd (buildPrompt env cfg m))"
  obtain r evs where f: "fetchAll env (channelId m) [] None = (r, evs)"
    by (cases "fetchAll env (channelId m) [] None")
  from fetchAll_fetches [OF f] have "\<forall>e\<in>set evs. \<exists>ch opts. e = Fetch ch opts" by blast
  with e f show ?thesis
    by (cases r; cases "fetch_result env (channelId m) \<lparr>limit = CONTEXT_MESSAGE_COUNT cfg, before = None\<rparr>")
      (auto simp: buildPrompt_def Let_def split: if_splits)
qed

lemma sendReply_events:
  "e \<in> set (snd (sendReply env m chunks)) \<Longrightarrow> \<exists>c. e = Reply (msg_id m) ChunkReply c"
  by (induction chunks) (auto split: option.splits prod.splits)



lemma splitMessage_Some: "\<exists>cs. splitMessage t = Some cs"
  using splitLoop_total [of "[]" t] by (auto simp: splitMessage_def)

lemma set_take_drop: "set (take n xs) \<union> set (drop n xs) = set xs"
  using set_append [of "take n xs" "drop n xs"] by simp

lemma set_joined:
  "set (joined env cfg m) =
     insert (SendTyping (channelId m)) (set (snd (buildPrompt env cfg m)) \<union> set (snd (downloadAttachments env cfg m)))"
proof -
  let ?pevs = "snd (buildPrompt env cfg m)" and ?devs = "snd (downloadAttachments env cfg m)"
  let ?i = "interleave (schedule env (msg_id m)) (drop 1 ?pevs) (drop 1 ?devs)"
  have "set (joined env cfg m) =
      insert (SendTyping (channelId m)) (set (take 1 ?pevs) \<union> set (take 1 ?devs) \<union> (set (fst ?i) \<union> set (snd ?i)))"
    by (simp add: joined_def begun_def case_prod_unfold Un_assoc del: One_nat_def)
  also have "\<dots> = insert (SendTyping (channelId m))
      ((set (take 1 ?pevs) \<union> set (drop 1 ?pevs)) \<union> (set (take 1 ?devs) \<union> set (drop 1 ?devs)))"
    unfolding interleave_set by blast
  finally show ?thesis by (simp only: set_take_drop)
qed

text \<open>
  The ways \<open>processMessage\<close> ends. \<open>splitMessage\<close> returns for every text, so a reply is
  always attempted.
\<close>

lemma processMessage_cases [case_names prompt_failed send_failed empty replied reply_failed]:
  obtains
    (prompt_failed) e pevs evs left where "buildPrompt env cfg m = (Inl e, pevs)"
      "interleave (schedule env (msg_id m)) (drop 1 pevs @ [Reply (msg_id m) ErrorNotice GENERIC_ERROR])
         (drop 1 (snd (downloadAttachments env cfg m))) = (evs, left)"
      "processMessage env cfg m = \<lparr>ended = Failed e, did = begun env cfg m @ evs, to_come = left\<rparr>"
  | (send_failed) prompt e where "fst (buildPrompt env cfg m) = Inr prompt"
      "send_result env prompt (fst (downloadAttachments env cfg m)) = Inl e"
      "processMessage env cfg m =
         \<lparr>ended = Failed e,
          did = joined env cfg m @
            [Send prompt (fst (downloadAttachments env cfg m)), Reply (msg_id m) ErrorNotice GENERIC_ERROR],
          to_come = []\<rparr>"
  | (empty) prompt response where "fst (buildPrompt env cfg m) = Inr prompt"
      "send_result env prompt (fst (downloadAttachments env cfg m)) = Inr response"
      "processMessage env cfg m =
         \<lparr>ended = EmptyResponse,
          did = joined env cfg m @
            [Send prompt (fst (downloadAttachments env cfg m)), Reply (msg_id m) EmptyNotice EMPTY_RESPONSE],
          to_come = []\<rparr>"
  | (replied) prompt response chunks revs where "fst (buildPrompt env cfg m) = Inr prompt"
      "send_result env prompt (fst (downloadAttachments env cfg m)) = Inr response"
      "sendReply env m chunks = (None, revs)"
      "processMessage env cfg m =
         \<lparr>ended = Replied,
          did = joined env cfg m @ Send prompt (fst (downloadAttachments env cfg m)) # revs,
          to_come = []\<rparr>"
  | (reply_failed) prompt response chunks e revs where "fst (buildPrompt env cfg m) = Inr prompt"
      "send_result env prompt (fst (downloadAttachments env cfg m)) = Inr response"
      "sendReply env m chunks = (Some e, revs)"
      "processMessage env cfg m =
         \<lparr>ended = Failed e,
          did = joined env cfg m @ Send prompt (fst (downloadAttachments env cfg m)) # revs @
            [Reply (msg_id m) ErrorNotice GENERIC_ERROR],
          to_come = []\<rparr>"
proof -
  obtain p pevs where p: "buildPrompt env cfg m = (p, pevs)" by (cases "buildPrompt env cfg m")
  obtain atts devs where d: "downloadAttachments env cfg m = (atts, devs)"
    by (cases "downloadAttachments env cfg m")
  show thesis
  proof (cases p)
    case (Inl e)
    obtain evs left where i: "interleave (schedule env (msg_id m))
        (drop 1 pevs @ [Reply (msg_id m) ErrorNotice GENERIC_ERROR]) (drop 1 devs) = (evs, left)"
      by (cases "interleave (schedule env (msg_id m))
        (drop 1 pevs @ [Reply (msg_id m) ErrorNotice GENERIC_ERROR]) (drop 1 devs)")
    with p d Inl have "processMessage env cfg m =
        \<lparr>ended = Failed e, did = begun env cfg m @ evs, to_come = left\<rparr>"
      by (simp add: processMessage_def del: One_nat_def)
    with prompt_failed [of e pevs evs left] p d Inl i show ?thesis by simp
  next
    case (Inr prompt)
    obtain evs left where i: "interleave (schedule env (msg_id m)) (drop 1 pevs) (drop 1 devs) = (evs, left)"
      by (cases "interleave (schedule env (msg_id m)) (drop 1 pevs) (drop 1 devs)")
    with p d have j: "joined env cfg m = begun env cfg m @ evs @ left"
      by (simp add: joined_def del: One_nat_def)
    show ?thesis
    proof (cases "send_result env prompt atts")
      case (Inl e)
      with p d Inr i j have "processMessage env cfg m =
          \<lparr>ended = Failed e,
           did = joined env cfg m @ [Send prompt atts, Reply (msg_id m) ErrorNotice GENERIC_ERROR],
           to_come = []\<rparr>"
        by (simp add: processMessage_def del: One_nat_def)
      with send_failed [of prompt e] p d Inr Inl show ?thesis by simp
    next
      case response: (Inr response)
      let ?text = "case response of None \<Rightarrow> [] | Some c \<Rightarrow> trim c"
      show ?thesis
      proof (cases "?text = []")
        case True
        with p d Inr response i j have "processMessage env cfg m =
            \<lparr>ended = EmptyResponse,
             did = joined env cfg m @ [Send prompt atts, Reply (msg_id m) EmptyNotice EMPTY_RESPONSE],
             to_come = []\<rparr>"
          by (simp add: processMessage_def del: One_nat_def)
        with empty [of prompt response] p d Inr response show ?thesis by simp
      next
        case False
        from splitMessage_Some obtain chunks where c: "splitMessage ?text = Some chunks" by blast
        obtain r revs where s: "sendReply env m chunks = (r, revs)" by (cases "sendReply env m chunks")
        show ?thesis
        proof (cases r)
          case None
          with p d Inr response False c s i j have "processMessage env cfg m =
              \<lparr>ended = Replied, did = joined env cfg m @ Send prompt atts # revs, to_come = []\<rparr>"
            by (simp add: processMessage_def del: One_nat_def)
          with replied [of prompt response chunks revs] p d Inr response s None show ?thesis by simp
        next
          case (Some e)
          with p d Inr response False c s i j have "processMessage env cfg m =
              \<lparr>ended = Failed e,
               did = joined env cfg m @ Send prompt atts # revs @ [Reply (msg_id m) ErrorNotice GENERIC_ERROR],
               to_come = []\<rparr>"
            by (simp add: processMessage_def del: One_nat_def)
          with reply_failed [of prompt response chunks e revs] p d Inr response s Some show ?thesis by simp
        qed
      qed
    qed
  qed
qed

lemma processMessage_returns: "ended (processMessage env cfg m) \<noteq> Diverged"
  by (cases env cfg m rule: processMessage_cases) simp_all

lemma processMessage_awaited:
  "fst (buildPrompt env cfg m) = Inr prompt \<Longrightarrow> to_come (processMessage env cfg m) = []"
  by (cases env cfg m rule: processMessage_cases) simp_all

lemma did_begun:
  "\<exists>evs. did (processMessage env cfg m) = begun env cfg m @ evs"
proof -
  have "\<exists>evs. joined env cfg m = begun env cfg m @ evs"
    by (simp add: joined_def case_prod_unfold)
  then obtain evs where "joined env cfg m = begun env cfg m @ evs" ..
  then show ?thesis
    by (cases env cfg m rule: processMessage_cases) simp_all
qed

section \<open>The events of a queue\<close>

text \<open>The turns of a queue, and the events of one message among them.\<close>

lemma weave_Nil: "weave sched turns [] = turns"
  by (cases turns) (simp_all add: weave_def interleave_Nil)

lemma set_weave: "set (concat (weave sched turns left)) = set (concat turns) \<union> set left"
proof (cases turns)
  case Nil
  then show ?thesis by (auto simp: weave_def)
next
  case (Cons first later)
  let ?i = "interleave sched later (map (\<lambda>x. [x]) left)"
  have "set (concat (fst ?i @ snd ?i)) = \<Union> (set ` (set (fst ?i) \<union> set (snd ?i)))" by auto
  also have "\<dots> = \<Union> (set ` (set later \<union> set (map (\<lambda>x. [x]) left)))" by (simp only: interleave_set)
  also have "\<dots> = set (concat later) \<union> set left" by auto
  finally show ?thesis using Cons by (auto simp: weave_def case_prod_unfold)
qed




lemma processQueue_Cons:
  "processQueue env cfg (m # queue) =
     (map (Pair (msg_id m)) (begun env cfg m) #
      map (\<lambda>e. [(msg_id m, e)]) (drop (length (begun env cfg m)) (did (processMessage env cfg m)))) @
     weave (late env (msg_id m)) (processQueue env cfg queue)
       (map (Pair (msg_id m)) (to_come (processMessage env cfg m)))"
  using processMessage_returns [of env cfg m] by (simp add: Let_def)

lemma concat_processQueue_Cons:
  "concat (processQueue env cfg (m # queue)) =
     map (Pair (msg_id m)) (did (processMessage env cfg m)) @
     concat (weave (late env (msg_id m)) (processQueue env cfg queue)
       (map (Pair (msg_id m)) (to_come (processMessage env cfg m))))"
proof -
  from did_begun [of env cfg m] obtain evs where "did (processMessage env cfg m) = begun env cfg m @ evs" ..
  then show ?thesis
    by (simp add: processQueue_Cons concat_map_singleton del: processQueue.simps(2))
qed

lemma processQueue_ids:
  "x \<in> set (concat (processQueue env cfg queue)) \<Longrightarrow> fst x \<in> msg_id ` set queue"
proof (induction queue)
  case Nil
  then show ?case by simp
next
  case (Cons m queue)
  then show ?case
    unfolding concat_processQueue_Cons set_append set_weave by auto
qed






section \<open>Temporary files\<close>

lemma files_after_set: "files_after evs files = files \<union> (\<Union>e\<in>set evs. set (written e))"
  by (simp add: files_after_def)

lemma files_after_append: "files_after (evs @ evs') files = files_after evs files \<union> files_after evs' files"
  by (auto simp: files_after_set)

lemma written_Nil: "\<forall>e\<in>set evs. written e = [] \<Longrightarrow> concat (map written evs) = []"
  by (induction evs) simp_all

lemma written_buildPrompt: "e \<in> set (snd (buildPrompt env cfg m)) \<Longrightarrow> written e = []"
  by (auto dest!: buildPrompt_events)

lemma written_sendReply:
  assumes "sendReply env m chunks = (r, revs)" "e \<in> set revs"
  shows "written e = []"
proof -
  from sendReply_events [of e env m chunks] assms obtain c where "e = Reply (msg_id m) ChunkReply c"
    by auto
  then show "written e = []" by simp
qed

lemma files_joined:
  "files_after (joined env cfg m) files = files_after (snd (downloadAttachments env cfg m)) files"
  by (auto simp: files_after_set set_joined written_buildPrompt)

text \<open>The files when \<open>processMessage\<close> returns after \<open>Promise.all\<close> has resolved.\<close>

lemma files_processMessage:
  assumes "fst (buildPrompt env cfg m) = Inr prompt"
  shows "files_after (did (processMessage env cfg m)) files =
     files_after (snd (downloadAttachments env cfg m)) files"
proof (cases env cfg m rule: processMessage_cases)
  case (prompt_failed e pevs evs left)
  with assms show ?thesis by simp
next
  case (send_failed prompt e)
  then show ?thesis by (simp add: files_after_append files_joined) (auto simp: files_after_set)
next
  case (empty prompt response)
  then show ?thesis by (simp add: files_after_append files_joined) (auto simp: files_after_set)
next
  case (replied prompt response chunks revs)
  from written_sendReply [OF replied(3)] have "files_after revs files = files"
    by (auto simp: files_after_set)
  with replied show ?thesis
    by (simp add: files_after_append files_joined) (auto simp: files_after_set)
next
  case (reply_failed prompt response chunks e revs)
  from written_sendReply [OF reply_failed(3)] have "files_after revs files = files"
    by (auto simp: files_after_set)
  with reply_failed show ?thesis
    by (simp add: files_after_append files_joined) (auto simp: files_after_set)
qed

text \<open>The files when every step of the two calls has been made.\<close>

lemma files_processMessage_all:
  "files_after (did (processMessage env cfg m) @ to_come (processMessage env cfg m)) files =
     files_after (snd (downloadAttachments env cfg m)) files"
proof (cases env cfg m rule: processMessage_cases)
  case (prompt_failed e pevs evs left)
  let ?devs = "snd (downloadAttachments env cfg m)"
  let ?er = "Reply (msg_id m) ErrorNotice GENERIC_ERROR"
  from interleave_set [of "schedule env (msg_id m)" "drop 1 pevs @ [?er]" "drop 1 ?devs"] prompt_failed(2)
  have "set evs \<union> set left = set (drop 1 pevs) \<union> {?er} \<union> set (drop 1 ?devs)" by simp
  then have "set (begun env cfg m @ evs @ left) =
      insert (SendTyping (channelId m)) (insert ?er
        ((set (take 1 pevs) \<union> set (drop 1 pevs)) \<union> (set (take 1 ?devs) \<union> set (drop 1 ?devs))))"
    using prompt_failed(1) by (auto simp: begun_def simp del: One_nat_def)
  then have s: "set (begun env cfg m @ evs @ left) =
      insert (SendTyping (channelId m)) (insert ?er (set pevs \<union> set ?devs))"
    by (simp only: set_take_drop)
  have "files_after (begun env cfg m @ evs @ left) files = files_after ?devs files"
    unfolding files_after_set s
    using written_buildPrompt [of _ env cfg m] prompt_failed(1) by auto
  with prompt_failed(3) show ?thesis by simp
next
  case (send_failed prompt e)
  from files_processMessage [OF send_failed(1), of files] send_failed(3) show ?thesis by simp
next
  case (empty prompt response)
  from files_processMessage [OF empty(1), of files] empty(3) show ?thesis by simp
next
  case (replied prompt response chunks revs)
  from files_processMessage [OF replied(1), of files] replied(4) show ?thesis by simp
next
  case (reply_failed prompt response chunks e revs)
  from files_processMessage [OF reply_failed(1), of files] reply_failed(4) show ?thesis by simp
qed

lemma written_downloadLoop:
  "concat (map written (snd (downloadLoop env cfg m xs))) = map (tmpPath env) (filter (accepted cfg) xs)"
  by (induction xs) (auto simp: accepted_def split: prod.splits option.splits)

lemma paths_downloadLoop:
  "d \<in> set (fst (downloadLoop env cfg m xs)) \<Longrightarrow> \<exists>a\<in>set xs. accepted cfg a \<and> dl_path d = tmpPath env a"
  by (induction xs) (auto simp: accepted_def split: prod.splits option.splits if_splits)

lemma written_downloadAttachments:
  "set (concat (map written (snd (downloadAttachments env cfg m)))) =
     (if IMAGE_SUPPORT cfg then tmpPath env ` {a \<in> set (attachments m). accepted cfg a} else {})"
proof (cases "\<not> IMAGE_SUPPORT cfg \<or> attachments m = []")
  case True
  then show ?thesis by (auto simp: downloadAttachments_def)
next
  case False
  then have "downloadAttachments env cfg m = downloadLoop env cfg m (attachments m)"
    by (simp add: downloadAttachments_def)
  then have "set (concat (map written (snd (downloadAttachments env cfg m)))) =
      set (map (tmpPath env) (filter (accepted cfg) (attachments m)))"
    by (simp only: written_downloadLoop)
  with False show ?thesis by auto
qed

lemma files_downloadAttachments:
  "files_after (snd (downloadAttachments env cfg m)) files =
     files \<union> (if IMAGE_SUPPORT cfg then tmpPath env ` {a \<in> set (attachments m). accepted cfg a} else {})"
  by (simp only: files_after_def written_downloadAttachments)

lemma paths_downloadAttachments:
  "dl_path ` set (fst (downloadAttachments env cfg m)) \<subseteq>
     (if IMAGE_SUPPORT cfg then tmpPath env ` {a \<in> set (attachments m). accepted cfg a} else {})"
  using paths_downloadLoop [of _ env cfg m "attachments m"]
  by (auto simp: downloadAttachments_def split: if_splits)

text \<open>
  Claim C1, as the code has it. \<open>processMessage\<close> removes no file: the files there were
  before are still there when it returns.
  \<^item> When \<open>buildPrompt\<close> returns the prompt, so that the completion call is made, then on
    every exit path (success, completion-service error, empty response, failed reply)
    the temporary files when \<open>processMessage\<close> returns are those there were before
    together with one file for every download that was started: the image attachments
    within the size ceiling, when image support is on. Every file handed to the
    completion call is among them, and \<open>downloadAttachments\<close> has nothing left to do.
  \<^item> When the history fetch fails, \<open>processMessage\<close> returns while \<open>downloadAttachments\<close>
    may still be running: the files at that moment are among the same set, and they are
    that set once the steps still to come have been made.
\<close>

theorem processMessage_keeps_files:
  "(\<forall>prompt. fst (buildPrompt env cfg message) = Inr prompt \<longrightarrow>
      files_after (did (processMessage env cfg message)) files =
        files \<union> (if IMAGE_SUPPORT cfg then tmpPath env ` {a \<in> set (attachments message). accepted cfg a} else {}) \<and>
      dl_path ` set (fst (downloadAttachments env cfg message)) \<subseteq>
        files_after (did (processMessage env cfg message)) files \<and>
      to_come (processMessage env cfg message) = []) \<and>
   files \<subseteq> files_after (did (processMessage env cfg message)) files \<and>
   files_after (did (processMessage env cfg message)) files \<subseteq>
     files \<union> (if IMAGE_SUPPORT cfg then tmpPath env ` {a \<in> set (attachments message). accepted cfg a} else {}) \<and>
   files_after (did (processMessage env cfg message) @ to_come (processMessage env cfg message)) files =
     files \<union> (if IMAGE_SUPPORT cfg then tmpPath env ` {a \<in> set (attachments message). accepted cfg a} else {})"
proof (intro conjI allI impI)
  fix prompt
  assume p: "fst (buildPrompt env cfg message) = Inr prompt"
  show a: "files_after (did (processMessage env cfg message)) files =
      files \<union> (if IMAGE_SUPPORT cfg then tmpPath env ` {a \<in> set (attachments message). accepted cfg a} else {})"
    by (simp only: files_processMessage [OF p] files_downloadAttachments)
  show "dl_path ` set (fst (downloadAttachments env cfg message)) \<subseteq>
      files_after (did (processMessage env cfg message)) files"
    unfolding a using paths_downloadAttachments [of env cfg message] by blast
  show "to_come (processMessage env cfg message) = []" by (rule processMessage_awaited [OF p])
next
  show "files \<subseteq> files_after (did (processMessage env cfg message)) files"
    by (simp add: files_after_def)
  have "files_after (did (processMessage env cfg message)) files \<subseteq>
      files_after (did (processMessage env cfg message) @ to_come (processMessage env cfg message)) files"
    by (simp add: files_after_append)
  then show "files_after (did (processMessage env cfg message)) files \<subseteq>
     files \<union> (if IMAGE_SUPPORT cfg then tmpPath env ` {a \<in> set (attachments message). accepted cfg a} else {})"
    by (simp only: files_processMessage_all files_downloadAttachments)
  show "files_after (did (processMessage env cfg message) @ to_come (processMessage env cfg message)) files =
     files \<union> (if IMAGE_SUPPORT cfg then tmpPath env ` {a \<in> set (attachments message). accepted cfg a} else {})"
    by (simp only: files_processMessage_all files_downloadAttachments)
qed

lemma sample_downloads:
  "downloadAttachments sampleEnv sampleConfig1 catMessage =
     ([\<lparr>dl_type = str ''file'', dl_path = tmpPath sampleEnv catImage, dl_displayName = str ''cat.png''\<rparr>],
      [Download (str ''https://cdn/cat.png'') (tmpPath sampleEnv catImage)])"
  by (simp add: downloadAttachments_def catMessage_def sampleConfig1_def sampleConfig_def isImage_def
      catImage_def startsWith_def str_def maxBytes_def sampleEnv_def)

lemma sample_tmpPath: "tmpPath sampleEnv catImage = str ''/tmp/cobot_1700000000000_cat.png''"
  by (simp add: tmpPath_def sampleEnv_def catImage_def showInt_def showNat.simps str_def)

lemma sample_prompt: "fst (buildPrompt env sampleConfig1 m) = Inr (content m)"
  by (simp add: buildPrompt_def sampleConfig1_def sampleConfig_def)

lemma sample_answers:
  "send_result sampleEnv prompt atts = Inr (Some (str ''hi there''))" "reply_result sampleEnv mid t = None"
  "schedule sampleEnv mid = []" "late sampleEnv mid = []"
  by (simp_all add: sampleEnv_def)

lemma sample_response:
  "trim (str ''hi there'') = str ''hi there''" "str ''hi there'' \<noteq> []"
  "splitMessage (str ''hi there'') = Some [str ''hi there'']"
  by (simp_all add: trim_def trimStart_def trimEnd_def isWhiteSpace_def str_def splitMessage_def
      DISCORD_MSG_LIMIT_def)

lemma sample_processMessage:
  "processMessage sampleEnv sampleConfig1 catMessage =
     \<lparr>ended = Replied,
      did = [SendTyping (str ''c''), Download (str ''https://cdn/cat.png'') (tmpPath sampleEnv catImage),
             Send (str ''hello'')
               [\<lparr>dl_type = str ''file'', dl_path = tmpPath sampleEnv catImage, dl_displayName = str ''cat.png''\<rparr>],
             Reply (showNat 7) ChunkReply (str ''hi there'')],
      to_come = []\<rparr>"
proof -
  have b: "buildPrompt sampleEnv sampleConfig1 catMessage = (Inr (str ''hello''), [])"
    by (simp add: buildPrompt_def sampleConfig1_def sampleConfig_def catMessage_def sampleMessage_def)
  show ?thesis
    by (simp add: processMessage_def begun_def b sample_downloads sample_answers sample_response)
      (simp add: catMessage_def sampleMessage_def)
qed

text \<open>
  A message with two small images when the history fetch is refused: \<open>processMessage\<close>
  returns after the first download has started, and the second starts later.
\<close>

lemma catDog_processMessage:
  "processMessage denyEnv sampleConfig catDogMessage =
     \<lparr>ended = Failed (Error (str ''Missing Access'')),
      did = [SendTyping (str ''c''), Fetch (str ''c'') \<lparr>limit = 100, before = None\<rparr>,
             Download (str ''https://cdn/cat.png'') (tmpPath denyEnv catImage),
             Reply (showNat 3) ErrorNotice GENERIC_ERROR],
      to_come = [Download (str ''https://cdn/dog.png'') (tmpPath denyEnv dogImage)]\<rparr>"
proof -
  have b: "buildPrompt denyEnv sampleConfig catDogMessage =
      (Inl (Error (str ''Missing Access'')), [Fetch (str ''c'') \<lparr>limit = 100, before = None\<rparr>])"
    by (simp add: buildPrompt_def sampleConfig_def fetchAll.simps [of _ _ "[]"] denyEnv_def pageOpts_def
        catDogMessage_def sampleMessage_def)
  have d: "snd (downloadAttachments denyEnv sampleConfig catDogMessage) =
      [Download (str ''https://cdn/cat.png'') (tmpPath denyEnv catImage),
       Download (str ''https://cdn/dog.png'') (tmpPath denyEnv dogImage)]"
    by (simp add: downloadAttachments_def catDogMessage_def sampleConfig_def isImage_def
        catImage_def dogImage_def startsWith_def str_def maxBytes_def split: option.splits)
  have s: "schedule denyEnv mid = []" for mid by (simp add: denyEnv_def sampleEnv_def)
  show ?thesis
    by (cases "downloadAttachments denyEnv sampleConfig catDogMessage")
      (use d in \<open>simp add: processMessage_def begun_def b s\<close>, simp add: catDogMessage_def sampleMessage_def)
qed

theorem processMessage_keeps_files_witness:
  "fst (buildPrompt sampleEnv sampleConfig1 catMessage) = Inr (content catMessage) \<and>
   files_after (did (processMessage sampleEnv sampleConfig1 catMessage)) {str ''/tmp/old''} =
     {str ''/tmp/old'', tmpPath sampleEnv catImage} \<and>
   to_come (processMessage sampleEnv sampleConfig1 catMessage) = [] \<and>
   files_after (did (processMessage denyEnv sampleConfig catDogMessage)) {} = {tmpPath denyEnv catImage} \<and>
   files_after (did (processMessage denyEnv sampleConfig catDogMessage) @
       to_come (processMessage denyEnv sampleConfig catDogMessage)) {} =
     {tmpPath denyEnv catImage, tmpPath denyEnv dogImage}"
proof -
  have "IMAGE_SUPPORT sampleConfig"  by (simp add: sampleConfig_def)
  moreover have "{a \<in> set (attachments catDogMessage). accepted sampleConfig a} = {catImage, dogImage}"
    by (auto simp: catDogMessage_def accepted_def isImage_def catImage_def dogImage_def startsWith_def
        str_def maxBytes_def sampleConfig_def)
  ultimately have all: "files_after (did (processMessage denyEnv sampleConfig catDogMessage) @
       to_come (processMessage denyEnv sampleConfig catDogMessage)) {} =
     {tmpPath denyEnv catImage, tmpPath denyEnv dogImage}"
    using processMessage_keeps_files [of denyEnv sampleConfig catDogMessage "{}"] by simp
  have part: "files_after (did (processMessage denyEnv sampleConfig catDogMessage)) {} = {tmpPath denyEnv catImage}"
    by (simp add: catDog_processMessage files_after_def)
  have "IMAGE_SUPPORT sampleConfig1" by (simp add: sampleConfig1_def sampleConfig_def)
  moreover have "{a \<in> set (attachments catMessage). accepted sampleConfig1 a} = {catImage}"
    by (auto simp: catMessage_def accepted_def isImage_def catImage_def startsWith_def str_def
        maxBytes_def sampleConfig1_def sampleConfig_def)
  ultimately show ?thesis
    using processMessage_keeps_files [of sampleEnv sampleConfig1 catMessage "{str ''/tmp/old''}"]
      sample_prompt [of sampleEnv catMessage] all part
    by (simp add: insert_commute)
qed

text \<open>
  The file downloaded for a message with one small image is still there after
  \<open>processMessage\<close>: the set of temporary files has grown.
\<close>

theorem processMessage_keeps_files_counterexample:
  "fst (downloadAttachments sampleEnv sampleConfig1 catMessage) =
     [\<lparr>dl_type = str ''file'', dl_path = str ''/tmp/cobot_1700000000000_cat.png'',
       dl_displayName = str ''cat.png''\<rparr>] \<and>
   ended (processMessage sampleEnv sampleConfig1 catMessage) = Replied \<and>
   files_after (did (processMessage sampleEnv sampleConfig1 catMessage)) {} =
     {str ''/tmp/cobot_1700000000000_cat.png''} \<and>
   {str ''/tmp/cobot_1700000000000_cat.png''} \<noteq> ({} :: jsstring set)"
  by (simp add: sample_processMessage files_after_def sample_downloads sample_tmpPath)

section \<open>Attachments over the size ceiling\<close>

text \<open>
  The attachments of a message are looked at by \<open>downloadAttachments\<close> only: nothing else
  in the processing of a message depends on them.
\<close>

lemma downloadLoop_message:
  "downloadLoop env cfg (m\<lparr>attachments := zs\<rparr>) xs = downloadLoop env cfg m xs"
  by (induction xs) simp_all

lemma sendReply_message: "sendReply env (m\<lparr>attachments := zs\<rparr>) chunks = sendReply env m chunks"
  by (induction chunks) (simp_all cong: option.case_cong prod.case_cong)

lemma buildPrompt_message: "buildPrompt env cfg (m\<lparr>attachments := zs\<rparr>) = buildPrompt env cfg m"
  by (simp add: buildPrompt_def render_def cong: if_cong sum.case_cong prod.case_cong)

lemma processMessage_message:
  assumes "downloadAttachments env cfg (m\<lparr>attachments := zs\<rparr>) = downloadAttachments env cfg m"
  shows "processMessage env cfg (m\<lparr>attachments := zs\<rparr>) = processMessage env cfg m"
  unfolding processMessage_def begun_def assms buildPrompt_message sendReply_message
  by (simp cong: if_cong sum.case_cong prod.case_cong option.case_cong)

lemma downloadLoop_skip:
  "\<not> isImage a \<Longrightarrow> downloadLoop env cfg m (xs @ a # ys) = downloadLoop env cfg m (xs @ ys)"
  by (simp add: downloadLoop_append)

lemma downloadLoop_no_image:
  "\<forall>a\<in>set xs. \<not> isImage a \<Longrightarrow> downloadLoop env cfg m xs = ([], [])"
  by (induction xs) simp_all

lemma downloadAttachments_skip:
  assumes "attachments m = xs @ a # ys" "\<not> isImage a"
  shows "downloadAttachments env cfg (m\<lparr>attachments := xs @ ys\<rparr>) = downloadAttachments env cfg m"
proof (cases "xs @ ys = []")
  case True
  with assms have "downloadLoop env cfg m (attachments m) = ([], [])" by simp
  with True show ?thesis by (simp add: downloadAttachments_def)
next
  case False
  with assms show ?thesis
    by (simp add: downloadAttachments_def downloadLoop_message downloadLoop_skip)
qed

text \<open>
  Claim C7, as the code has it. With image support on, for an image attachment whose
  declared size exceeds the ceiling, \<open>downloadAttachments\<close> does exactly one thing: it
  sends one notice, which names the file and the ceiling. It starts no download for the
  attachment and returns no file for it, and what it does for the attachments before and
  after is what it does without this one. When \<open>buildPrompt\<close> returns the prompt, the
  completion call is made with that prompt and the files of the other attachments.

  An attachment that is not an image is skipped silently whatever its size:
  \<open>downloadAttachments\<close> sends no notice and starts no download for it, and the whole
  processing of the message is what it is without the attachment.
\<close>

theorem oversized_image_skipped:
  assumes "attachments message = xs @ a # ys"
  shows "(IMAGE_SUPPORT cfg \<and> isImage a \<and> maxBytes cfg < int (att_size a) \<longrightarrow>
       downloadAttachments env cfg message =
         (fst (downloadLoop env cfg message xs) @ fst (downloadLoop env cfg message ys),
          snd (downloadLoop env cfg message xs) @
            Reply (msg_id message) TooLargeNotice (tooLargeText cfg a) # snd (downloadLoop env cfg message ys)) \<and>
       tooLargeText cfg a =
         [DQ] @ att_name a @ [DQ] @ str '' is too large (max '' @ showInt (MAX_IMAGE_SIZE_MB cfg) @ str '' MB).'' \<and>
       (\<forall>prompt. fst (buildPrompt env cfg message) = Inr prompt \<longrightarrow>
          Send prompt (fst (downloadAttachments env cfg message)) \<in> set (did (processMessage env cfg message)))) \<and>
    (\<not> isImage a \<longrightarrow>
       (IMAGE_SUPPORT cfg \<longrightarrow>
          downloadAttachments env cfg message =
            (fst (downloadLoop env cfg message xs) @ fst (downloadLoop env cfg message ys),
             snd (downloadLoop env cfg message xs) @ snd (downloadLoop env cfg message ys))) \<and>
       downloadAttachments env cfg message = downloadAttachments env cfg (message\<lparr>attachments := xs @ ys\<rparr>) \<and>
       processMessage env cfg message = processMessage env cfg (message\<lparr>attachments := xs @ ys\<rparr>))"
proof (intro conjI allI impI; (elim conjE)?)
  assume i: "IMAGE_SUPPORT cfg" "isImage a" "maxBytes cfg < int (att_size a)"
  have "downloadLoop env cfg message (a # ys) =
      (fst (downloadLoop env cfg message ys),
       Reply (msg_id message) TooLargeNotice (tooLargeText cfg a) # snd (downloadLoop env cfg message ys))"
    using i(2,3) by (simp split: prod.splits)
  then show "downloadAttachments env cfg message =
      (fst (downloadLoop env cfg message xs) @ fst (downloadLoop env cfg message ys),
       snd (downloadLoop env cfg message xs) @
         Reply (msg_id message) TooLargeNotice (tooLargeText cfg a) # snd (downloadLoop env cfg message ys))"
    using i(1) assms by (simp add: downloadAttachments_def downloadLoop_append)
next
  show "tooLargeText cfg a =
      [DQ] @ att_name a @ [DQ] @ str '' is too large (max '' @ showInt (MAX_IMAGE_SIZE_MB cfg) @ str '' MB).''"
    by (simp add: tooLargeText_def)
next
  fix prompt
  assume "fst (buildPrompt env cfg message) = Inr prompt"
  then show "Send prompt (fst (downloadAttachments env cfg message)) \<in> set (did (processMessage env cfg message))"
    by (cases env cfg message rule: processMessage_cases) simp_all
next
  assume n: "\<not> isImage a" and i: "IMAGE_SUPPORT cfg"
  from n have "downloadLoop env cfg message (a # ys) = downloadLoop env cfg message ys" by simp
  then show "downloadAttachments env cfg message =
      (fst (downloadLoop env cfg message xs) @ fst (downloadLoop env cfg message ys),
       snd (downloadLoop env cfg message xs) @ snd (downloadLoop env cfg message ys))"
    using i assms by (simp add: downloadAttachments_def downloadLoop_append)
next
  assume n: "\<not> isImage a"
  show "downloadAttachments env cfg message = downloadAttachments env cfg (message\<lparr>attachments := xs @ ys\<rparr>)"
    by (rule downloadAttachments_skip [OF assms n, symmetric])
  show "processMessage env cfg message = processMessage env cfg (message\<lparr>attachments := xs @ ys\<rparr>)"
    by (rule processMessage_message [OF downloadAttachments_skip [OF assms n], symmetric])
qed

lemma mixed_inputs:
  "IMAGE_SUPPORT sampleConfig1" "attachments mixedMessage = [] @ bigImage # [catImage]"
  "isImage bigImage" "maxBytes sampleConfig1 < int (att_size bigImage)"
  "attachments pdfCatMessage = [catImage] @ bigPdf # []" "\<not> isImage bigPdf"
  "maxBytes sampleConfig1 < int (att_size bigPdf)"
  by (simp_all add: sampleConfig1_def sampleConfig_def mixedMessage_def isImage_def bigImage_def
      startsWith_def str_def maxBytes_def pdfCatMessage_def bigPdf_def)

lemma cat_downloadLoop:
  "downloadLoop sampleEnv sampleConfig1 m [catImage] =
      ([\<lparr>dl_type = str ''file'', dl_path = tmpPath sampleEnv catImage, dl_displayName = str ''cat.png''\<rparr>],
       [Download (str ''https://cdn/cat.png'') (tmpPath sampleEnv catImage)])"
  by (simp add: sampleConfig1_def sampleConfig_def isImage_def
      catImage_def startsWith_def str_def maxBytes_def sampleEnv_def)

theorem oversized_image_skipped_witness:
  "IMAGE_SUPPORT sampleConfig1 \<and> attachments mixedMessage = [] @ bigImage # [catImage] \<and>
   isImage bigImage \<and> maxBytes sampleConfig1 < int (att_size bigImage) \<and>
   downloadAttachments sampleEnv sampleConfig1 mixedMessage =
     ([\<lparr>dl_type = str ''file'', dl_path = tmpPath sampleEnv catImage, dl_displayName = str ''cat.png''\<rparr>],
      [Reply (msg_id mixedMessage) TooLargeNotice (tooLargeText sampleConfig1 bigImage),
       Download (str ''https://cdn/cat.png'') (tmpPath sampleEnv catImage)]) \<and>
   tooLargeText sampleConfig1 bigImage = DQ # str ''big.png'' @ DQ # str '' is too large (max 5 MB).'' \<and>
   fst (buildPrompt sampleEnv sampleConfig1 mixedMessage) = Inr (str ''hello'') \<and>
   Send (str ''hello'') (fst (downloadAttachments sampleEnv sampleConfig1 mixedMessage))
     \<in> set (did (processMessage sampleEnv sampleConfig1 mixedMessage)) \<and>
   attachments pdfCatMessage = [catImage] @ bigPdf # [] \<and> \<not> isImage bigPdf \<and>
   maxBytes sampleConfig1 < int (att_size bigPdf) \<and>
   downloadAttachments sampleEnv sampleConfig1 pdfCatMessage =
     ([\<lparr>dl_type = str ''file'', dl_path = tmpPath sampleEnv catImage, dl_displayName = str ''cat.png''\<rparr>],
      [Download (str ''https://cdn/cat.png'') (tmpPath sampleEnv catImage)]) \<and>
   processMessage sampleEnv sampleConfig1 pdfCatMessage =
     processMessage sampleEnv sampleConfig1 (pdfCatMessage\<lparr>attachments := [catImage]\<rparr>)"
proof -
  note h = mixed_inputs
  have p: "fst (buildPrompt sampleEnv sampleConfig1 mixedMessage) = Inr (str ''hello'')"
    by (simp add: buildPrompt_def sampleConfig1_def sampleConfig_def mixedMessage_def sampleMessage_def)
  have t: "tooLargeText sampleConfig1 bigImage = DQ # str ''big.png'' @ DQ # str '' is too large (max 5 MB).''"
    by (simp add: tooLargeText_def sampleConfig1_def sampleConfig_def bigImage_def showInt_def showNat.simps str_def)
  note th = oversized_image_skipped [OF h(2), of sampleConfig1 sampleEnv]
  from th h(1,3,4) have a: "downloadAttachments sampleEnv sampleConfig1 mixedMessage =
     ([\<lparr>dl_type = str ''file'', dl_path = tmpPath sampleEnv catImage, dl_displayName = str ''cat.png''\<rparr>],
      [Reply (msg_id mixedMessage) TooLargeNotice (tooLargeText sampleConfig1 bigImage),
       Download (str ''https://cdn/cat.png'') (tmpPath sampleEnv catImage)])"
    by (simp only: cat_downloadLoop downloadLoop.simps(1) fst_conv snd_conv append.simps simp_thms)
  from th h(1,3,4) p have c: "Send (str ''hello'') (fst (downloadAttachments sampleEnv sampleConfig1 mixedMessage))
     \<in> set (did (processMessage sampleEnv sampleConfig1 mixedMessage))"
    by blast
  note tn = oversized_image_skipped [OF h(5), of sampleConfig1 sampleEnv]
  from tn h(1,6) have n: "downloadAttachments sampleEnv sampleConfig1 pdfCatMessage =
     ([\<lparr>dl_type = str ''file'', dl_path = tmpPath sampleEnv catImage, dl_displayName = str ''cat.png''\<rparr>],
      [Download (str ''https://cdn/cat.png'') (tmpPath sampleEnv catImage)])"
    by (simp only: cat_downloadLoop downloadLoop.simps(1) fst_conv snd_conv append.simps simp_thms)
  from tn h(6) have q: "processMessage sampleEnv sampleConfig1 pdfCatMessage =
     processMessage sampleEnv sampleConfig1 (pdfCatMessage\<lparr>attachments := [catImage]\<rparr>)"
    by simp
  from h a t p c n q show ?thesis by blast
qed

text \<open>
  An attachment that is not an image is skipped before its size is looked at: a PDF over
  the ceiling gets no notice.
\<close>

theorem oversized_image_skipped_counterexample:
  "IMAGE_SUPPORT sampleConfig1 \<and> attachments pdfMessage = [bigPdf] \<and>
   maxBytes sampleConfig1 < int (att_size bigPdf) \<and>
   downloadAttachments sampleEnv sampleConfig1 pdfMessage = ([], [])"
  by (simp add: sampleConfig1_def sampleConfig_def pdfMessage_def isImage_def bigPdf_def
      startsWith_def str_def maxBytes_def downloadAttachments_def)

section \<open>Sample runs\<close>

text \<open>A completion call that fails.\<close>

lemma sample_ids: "msg_id (sampleMessage n) = showNat n" "msg_id twoBigMessage = showNat 1"
  "showNat 1 \<noteq> showNat 2" "showNat (Suc 0) \<noteq> showNat 2"
  by (simp_all add: sampleMessage_def twoBigMessage_def showNat.simps)



text \<open>A history fetch that is refused.\<close>

lemma deny_buildPrompt:
  "buildPrompt denyEnv sampleConfig m =
     (Inl (Error (str ''Missing Access'')), [Fetch (channelId m) \<lparr>limit = 100, before = None\<rparr>])"
  by (simp add: buildPrompt_def sampleConfig_def fetchAll.simps [of _ _ "[]"] denyEnv_def pageOpts_def)

lemma deny_downloads:
  "downloadAttachments denyEnv sampleConfig twoBigMessage =
     ([], [Reply (showNat 1) TooLargeNotice (tooLargeText sampleConfig bigImage),
           Reply (showNat 1) TooLargeNotice (tooLargeText sampleConfig otherImage)])"
  by (simp add: downloadAttachments_def twoBigMessage_def sampleConfig_def isImage_def
      bigImage_def otherImage_def startsWith_def str_def maxBytes_def sampleMessage_def)

lemma deny_no_downloads: "downloadAttachments denyEnv sampleConfig (sampleMessage n) = ([], [])"
  by (simp add: downloadAttachments_def sampleMessage_def)

lemma deny_schedule: "schedule denyEnv mid = []" "late denyEnv mid = [False]"
  by (simp_all add: denyEnv_def sampleEnv_def)

lemma deny_first:
  "processMessage denyEnv sampleConfig twoBigMessage =
     \<lparr>ended = Failed (Error (str ''Missing Access'')),
      did = [SendTyping (str ''c''), Fetch (str ''c'') \<lparr>limit = 100, before = None\<rparr>,
             Reply (showNat 1) TooLargeNotice (tooLargeText sampleConfig bigImage),
             Reply (showNat 1) ErrorNotice GENERIC_ERROR],
      to_come = [Reply (showNat 1) TooLargeNotice (tooLargeText sampleConfig otherImage)]\<rparr>"
  by (simp add: processMessage_def begun_def deny_buildPrompt deny_downloads deny_schedule sample_ids)
    (simp add: twoBigMessage_def sampleMessage_def)

lemma deny_second:
  "processMessage denyEnv sampleConfig (sampleMessage 2) =
     \<lparr>ended = Failed (Error (str ''Missing Access'')),
      did = [SendTyping (str ''c''), Fetch (str ''c'') \<lparr>limit = 100, before = None\<rparr>,
             Reply (showNat 2) ErrorNotice GENERIC_ERROR],
      to_come = []\<rparr>"
  by (simp add: processMessage_def begun_def deny_buildPrompt deny_no_downloads deny_schedule interleave_Nil)
    (simp add: sampleMessage_def)

lemma deny_begun:
  "begun denyEnv sampleConfig twoBigMessage =
     [SendTyping (str ''c''), Fetch (str ''c'') \<lparr>limit = 100, before = None\<rparr>,
      Reply (showNat 1) TooLargeNotice (tooLargeText sampleConfig bigImage)]"
  "begun denyEnv sampleConfig (sampleMessage 2) =
     [SendTyping (str ''c''), Fetch (str ''c'') \<lparr>limit = 100, before = None\<rparr>]"
  by (simp_all add: begun_def deny_buildPrompt deny_downloads deny_no_downloads)
    (simp_all add: twoBigMessage_def sampleMessage_def)

lemma deny_queue:
  "processQueue denyEnv sampleConfig [sampleMessage 2] =
      [[(showNat 2, SendTyping (str ''c'')),
        (showNat 2, Fetch (str ''c'') \<lparr>limit = 100, before = None\<rparr>)],
       [(showNat 2, Reply (showNat 2) ErrorNotice GENERIC_ERROR)]]"
  by (simp add: deny_second deny_begun sample_ids weave_def Let_def)

lemma deny_trace:
  "concat (processQueue denyEnv sampleConfig [twoBigMessage, sampleMessage 2]) =
     [(showNat 1, SendTyping (str ''c'')),
      (showNat 1, Fetch (str ''c'') \<lparr>limit = 100, before = None\<rparr>),
      (showNat 1, Reply (showNat 1) TooLargeNotice (tooLargeText sampleConfig bigImage)),
      (showNat 1, Reply (showNat 1) ErrorNotice GENERIC_ERROR),
      (showNat 2, SendTyping (str ''c'')),
      (showNat 2, Fetch (str ''c'') \<lparr>limit = 100, before = None\<rparr>),
      (showNat 1, Reply (showNat 1) TooLargeNotice (tooLargeText sampleConfig otherImage)),
      (showNat 2, Reply (showNat 2) ErrorNotice GENERIC_ERROR)]"
  unfolding concat_processQueue_Cons [of _ _ twoBigMessage] deny_queue
  by (simp add: deny_first deny_schedule sample_ids weave_def)

section \<open>Failure isolation\<close>















section \<open>The guard of the dispatcher\<close>

text \<open>
  The calls of \<open>processMessage\<close> themselves are made one at a time in each channel, in
  the order in which the messages arrived: \<open>dispatcher_serial\<close> at the end of this
  section. The guard on \<open>processingChannels\<close> sees to that. A call counts as over
  when its promise settles.
\<close>

lemma pending_pair: "pending (Called m # Returned m' # cs) = pending cs"
  by (simp add: pending_def)

lemma one_at_a_time_append_Called:
  "one_at_a_time cs \<Longrightarrow> pending cs = None \<Longrightarrow> one_at_a_time (cs @ [Called m])"
  by (induction cs rule: one_at_a_time.induct) (simp_all add: pending_pair, simp_all add: pending_def)

lemma one_at_a_time_append_Returned:
  "one_at_a_time cs \<Longrightarrow> pending cs = Some m \<Longrightarrow> one_at_a_time (cs @ [Returned m])"
  by (induction cs rule: one_at_a_time.induct) (simp_all add: pending_pair, simp_all add: pending_def)

lemma pending_snoc: "pending (cs @ [Called m]) = Some m" "pending (cs @ [Returned m]) = None"
  by (simp_all add: pending_def)

lemma called_append: "called (cs @ cs') = called cs @ called cs'"
  by (induction cs rule: called.induct) auto


lemma calls_of_snoc:
  "calls_of c (d\<lparr>calls := calls d @ [(ch, x)]\<rparr>) = (if c = ch then calls_of c d @ [x] else calls_of c d)"
  by (simp add: calls_of_def)

lemma drainNext_other:
  assumes "c \<noteq> ch"
  shows "calls_of c (drainNext ch d) = calls_of c d" "queue_of (drainNext ch d) c = queue_of d c"
    "awaited (drainNext ch d) c = awaited d c"
    "c \<in> processingChannels (drainNext ch d) \<longleftrightarrow> c \<in> processingChannels d"
  using assms
  by (auto simp: drainNext_def calls_of_def queue_of_def split: option.splits list.splits)

lemma drainNext_head:
  assumes "queue_of d ch = m # rest"
  shows "calls_of ch (drainNext ch d) = calls_of ch d @ [Called m]" "queue_of (drainNext ch d) ch = rest"
    "awaited (drainNext ch d) ch = Some m"
    "ch \<in> processingChannels (drainNext ch d) \<longleftrightarrow> ch \<in> processingChannels d"
  using assms
  by (auto simp: drainNext_def calls_of_def queue_of_def split: option.splits list.splits)

lemma drainNext_empty:
  assumes "queue_of d ch = []"
  shows "calls_of ch (drainNext ch d) = calls_of ch d" "queue_of (drainNext ch d) ch = []"
    "awaited (drainNext ch d) ch = None" "ch \<notin> processingChannels (drainNext ch d)"
  using assms
  by (auto simp: drainNext_def calls_of_def queue_of_def split: option.splits list.splits)

lemma processingChannels_update_fields:
  "calls_of c (d\<lparr>processingChannels := P\<rparr>) = calls_of c d"
  "queue_of (d\<lparr>processingChannels := P\<rparr>) c = queue_of d c"
  by (simp_all add: calls_of_def queue_of_def)

lemma pushMessage_fields:
  "calls_of c (pushMessage m d) = calls_of c d" "awaited (pushMessage m d) = awaited d"
  "processingChannels (pushMessage m d) = processingChannels d"
  "queue_of (pushMessage m d) c = (if c = channelId m then queue_of d c @ [m] else queue_of d c)"
  by (auto simp: pushMessage_def calls_of_def queue_of_def split: option.splits)

lemma drainNext_inv:
  assumes "one_at_a_time (calls_of ch d)" "pending (calls_of ch d) = None"
    "ch \<in> processingChannels d" "\<And>c. c \<noteq> ch \<Longrightarrow> dispatcher_inv d c"
  shows "dispatcher_inv (drainNext ch d) c"
proof (cases "c = ch")
  case False
  with assms(4) [of c] show ?thesis
    by (simp add: dispatcher_inv_def drainNext_other)
next
  case True
  show ?thesis
  proof (cases "queue_of d ch")
    case Nil
    with assms(1,2) True show ?thesis
      by (simp add: dispatcher_inv_def drainNext_empty)
  next
    case (Cons m rest)
    with True assms(3) one_at_a_time_append_Called [OF assms(1,2), of m] show ?thesis
      by (simp add: dispatcher_inv_def drainNext_head pending_snoc)
  qed
qed

lemma drainNext_fifo:
  "called (calls_of c (drainNext ch d)) @ queue_of (drainNext ch d) c = called (calls_of c d) @ queue_of d c"
proof (cases "c = ch")
  case False
  then show ?thesis by (simp add: drainNext_other)
next
  case True
  then show ?thesis
    by (cases "queue_of d ch") (simp_all add: drainNext_empty drainNext_head called_append)
qed

lemma onMessage_inv:
  assumes "\<And>c. dispatcher_inv d c"
  shows "dispatcher_inv (onMessage cfg m d) c"
proof (cases "accepts cfg m")
  case False
  with assms show ?thesis by (simp add: onMessage_def)
next
  case True
  let ?ch = "channelId m"
  let ?d = "pushMessage m d"
  show ?thesis
  proof (cases "?ch \<in> processingChannels d")
    case busy: True
    with assms [of ?ch] have "awaited d ?ch \<noteq> None" unfolding dispatcher_inv_def by blast
    with assms [of c] have "dispatcher_inv ?d c"
      by (auto simp: dispatcher_inv_def pushMessage_fields)
    with True busy show ?thesis by (simp add: onMessage_def processQueue_call_def pushMessage_fields)
  next
    case idle: False
    let ?d' = "?d\<lparr>processingChannels := insert ?ch (processingChannels ?d)\<rparr>"
    note same = processingChannels_update_fields pushMessage_fields
    from assms [of ?ch] idle have
      "one_at_a_time (calls_of ?ch ?d')" "pending (calls_of ?ch ?d') = None"
      by (auto simp: dispatcher_inv_def same)
    moreover have "?ch \<in> processingChannels ?d'" by simp
    moreover have "dispatcher_inv ?d' c" if "c \<noteq> ?ch" for c
      using assms [of c] that by (auto simp: dispatcher_inv_def same)
    ultimately have "dispatcher_inv (drainNext ?ch ?d') c" by (rule drainNext_inv)
    with True idle show ?thesis by (simp add: onMessage_def processQueue_call_def pushMessage_fields)
  qed
qed

lemma resume_inv:
  assumes "\<And>c. dispatcher_inv d c"
  shows "dispatcher_inv (resume ch d) c"
proof (cases "awaited d ch")
  case None
  with assms show ?thesis by (simp add: resume_def)
next
  case (Some m)
  let ?d' = "d\<lparr>calls := calls d @ [(ch, Returned m)]\<rparr>"
  from assms [of ch] Some have p: "one_at_a_time (calls_of ch d)" "pending (calls_of ch d) = Some m"
    "ch \<in> processingChannels d"
    by (simp_all add: dispatcher_inv_def)
  have "one_at_a_time (calls_of ch ?d')" "pending (calls_of ch ?d') = None"
    using one_at_a_time_append_Returned [OF p(1,2)] by (simp_all add: calls_of_snoc pending_snoc)
  moreover have "ch \<in> processingChannels ?d'" using p(3) by simp
  moreover have "\<And>c. c \<noteq> ch \<Longrightarrow> dispatcher_inv ?d' c"
    using assms by (simp add: dispatcher_inv_def calls_of_snoc queue_of_def)
  ultimately have "dispatcher_inv (drainNext ch ?d') c" by (rule drainNext_inv)
  with Some show ?thesis by (simp add: resume_def)
qed

lemma arrivals_append: "arrivals cfg ch (ts @ ts') = arrivals cfg ch ts @ arrivals cfg ch ts'"
  by (induction cfg ch ts rule: arrivals.induct) simp_all

lemma onMessage_fifo:
  "called (calls_of c (onMessage cfg m d)) @ queue_of (onMessage cfg m d) c =
     called (calls_of c d) @ queue_of d c @ arrivals cfg c [Arrives m]"
proof (cases "accepts cfg m")
  case False
  then show ?thesis by (simp add: onMessage_def)
next
  case True
  let ?d = "pushMessage m d"
  have "called (calls_of c (processQueue_call (channelId m) ?d)) @ queue_of (processQueue_call (channelId m) ?d) c =
      called (calls_of c ?d) @ queue_of ?d c"
    by (simp add: processQueue_call_def drainNext_fifo processingChannels_update_fields)
  with True show ?thesis by (simp add: onMessage_def pushMessage_fields)
qed

lemma resume_fifo:
  "called (calls_of c (resume ch d)) @ queue_of (resume ch d) c = called (calls_of c d) @ queue_of d c"
proof (cases "awaited d ch")
  case None
  then show ?thesis by (simp add: resume_def)
next
  case (Some m)
  have "called (calls_of c (d\<lparr>calls := calls d @ [(ch, Returned m)]\<rparr>)) = called (calls_of c d)"
    by (simp add: calls_of_snoc called_append)
  moreover have "queue_of (d\<lparr>calls := calls d @ [(ch, Returned m)]\<rparr>) c = queue_of d c"
    by (simp add: queue_of_def)
  ultimately show ?thesis using Some by (simp add: resume_def drainNext_fifo)
qed

text \<open>
  After any sequence of arrivals and returns, the calls of a channel are made one at a
  time, and the messages called so far followed by the queue are the accepted messages of
  the channel in their order of arrival.
\<close>

lemma dispatcher_serial:
  "dispatcher_inv (run cfg turns) ch \<and>
   called (calls_of ch (run cfg turns)) @ queue_of (run cfg turns) ch = arrivals cfg ch turns"
proof -
  have "(\<forall>c. dispatcher_inv (run cfg turns) c) \<and>
      (\<forall>c. called (calls_of c (run cfg turns)) @ queue_of (run cfg turns) c = arrivals cfg c turns)"
  proof (induction turns rule: rev_induct)
    case Nil
    show ?case
      by (simp add: run_def newDispatcher_def dispatcher_inv_def calls_of_def queue_of_def pending_def)
  next
    case (snoc t turns)
    have r: "run cfg (turns @ [t]) = turn_step cfg (run cfg turns) t" by (simp add: run_def)
    show ?case
    proof (cases t)
      case (Arrives m)
      with snoc r show ?thesis
        by (simp add: onMessage_inv onMessage_fifo arrivals_append del: arrivals.simps)
    next
      case (Returns c')
      with snoc r show ?thesis
        by (simp add: resume_inv resume_fifo arrivals_append)
    qed
  qed
  then show ?thesis by blast
qed

section \<open>One message at a time\<close>

text \<open>
  When no step of \<open>downloadAttachments\<close> is left behind, and so whenever no history fetch
  fails, the events of a queue are the events of its messages one after the other, each
  message's in one block.
\<close>

lemma remdups_adj_block:
  "a \<notin> set ys \<Longrightarrow> remdups_adj (replicate (Suc n) a @ ys) = a # remdups_adj ys"
proof (induction n)
  case 0
  then show ?case by (cases ys) auto
next
  case (Suc n)
  then show ?case by simp
qed

lemma processQueue_awaited:
  "\<forall>m\<in>set queue. to_come (processMessage env cfg m) = [] \<Longrightarrow>
   concat (processQueue env cfg queue) =
     concat (map (\<lambda>m. map (Pair (msg_id m)) (did (processMessage env cfg m))) queue)"
  by (induction queue) (simp_all add: concat_processQueue_Cons weave_Nil del: processQueue.simps(2))

lemma did_nonempty: "did (processMessage env cfg m) \<noteq> []"
  using did_begun [of env cfg m] by (auto simp: begun_def)

lemma serial_processQueue:
  assumes "distinct (map msg_id queue)"
    "\<forall>m\<in>set queue. \<exists>prompt. fst (buildPrompt env cfg m) = Inr prompt"
  shows "serial (concat (processQueue env cfg queue))"
  using assms
proof (induction queue)
  case Nil
  show ?case by (simp add: serial_def)
next
  case (Cons m queue)
  let ?rest = "map fst (concat (processQueue env cfg queue))"
  from Cons.prems(2) processMessage_awaited [of env cfg m]
  have a: "to_come (processMessage env cfg m) = []" by auto
  from did_nonempty [of env cfg m]
  obtain n where n: "length (did (processMessage env cfg m)) = Suc n"
    by (cases "did (processMessage env cfg m)") auto
  have block: "map fst (map (Pair (msg_id m)) (did (processMessage env cfg m))) = replicate (Suc n) (msg_id m)"
    using n by (simp add: map_replicate_const comp_def)
  have "set ?rest \<subseteq> msg_id ` set queue"
    using processQueue_ids [of _ env cfg queue] by (auto simp del: set_concat)
  moreover from Cons.prems(1) have "msg_id m \<notin> msg_id ` set queue" by simp
  ultimately have notin: "msg_id m \<notin> set ?rest" by blast
  have "map fst (concat (processQueue env cfg (m # queue))) = replicate (Suc n) (msg_id m) @ ?rest"
    using block by (simp add: concat_processQueue_Cons a weave_Nil del: processQueue.simps(2) replicate.simps)
  then have "remdups_adj (map fst (concat (processQueue env cfg (m # queue)))) = msg_id m # remdups_adj ?rest"
    using remdups_adj_block [OF notin] by simp
  moreover have "distinct (remdups_adj ?rest)"
    using Cons by (simp add: serial_def)
  ultimately show ?case using notin by (simp add: serial_def)
qed

text \<open>
  Claim C2 says that the processing of a message, with every reply it sends, is complete
  before the processing of the next message of the channel begins. Here the history
  fetch is refused while message 1, with two images over the size ceiling, has sent its
  first notice: \<open>processMessage\<close> sends the error reply and returns, the processing of
  message 2 begins with its typing signal and its history fetch, and the second notice
  of message 1 is sent after that.
\<close>

theorem overlap_after_failed_fetch:
  "concat (processQueue denyEnv sampleConfig [twoBigMessage, sampleMessage 2]) =
     [(showNat 1, SendTyping (str ''c'')),
      (showNat 1, Fetch (str ''c'') \<lparr>limit = 100, before = None\<rparr>),
      (showNat 1, Reply (showNat 1) TooLargeNotice (tooLargeText sampleConfig bigImage)),
      (showNat 1, Reply (showNat 1) ErrorNotice GENERIC_ERROR),
      (showNat 2, SendTyping (str ''c'')),
      (showNat 2, Fetch (str ''c'') \<lparr>limit = 100, before = None\<rparr>),
      (showNat 1, Reply (showNat 1) TooLargeNotice (tooLargeText sampleConfig otherImage)),
      (showNat 2, Reply (showNat 2) ErrorNotice GENERIC_ERROR)] \<and>
   \<not> serial (concat (processQueue denyEnv sampleConfig [twoBigMessage, sampleMessage 2]))"
  unfolding deny_trace using sample_ids(3) by (simp add: serial_def)

end
